theory Spec2Isabelle
  imports Complex_Main
begin

section \<open>Demand capacity simulator: the simulation core\<close>

text \<open>
  A shallow embedding of \<^verbatim>\<open>src/demand-simulator/simulation-core.js\<close>: the two demand
  generators and \<^verbatim>\<open>runFullSimulation\<close>. JavaScript numbers are modelled as exact reals
  (no rounding error, no NaN and no Infinity), minutes as naturals. The one place where the
  code leaves the finite numbers on well-typed input is a Gaussian curve of spread 0 (see
  the generators below); the theorems about the served and shed totals of generated demand
  exclude it by a hypothesis. The mutable objects
  keyed by curve id (\<^verbatim>\<open>queuesByCurve\<close>, \<^verbatim>\<open>shedByCurve\<close>, ...) are functions from the
  id; the code only ever reads them at the ids of the curves it was given. The loop-local
  variables of one minute (\<^verbatim>\<open>shedThisMinute\<close>, \<^verbatim>\<open>availableCapacity\<close>, \<^verbatim>\<open>actualUsage\<close>)
  are fields of the state, reset where the code declares them.
\<close>

subsection \<open>Data\<close>

text \<open>A curve object as the callers and the tests build it (\<^verbatim>\<open>id\<close> and \<^verbatim>\<open>type\<close> carry a
  suffix, since HOL has constants of these names).\<close>

record curve =
  id_curve :: string
  type_curve :: string
  totalDemand :: real
  peakHour :: real
  curveWidth :: real
  priority :: int

text \<open>A queue entry \<^verbatim>\<open>{arrivalTime, demand, curveId, priority}\<close>.\<close>

record queueItem =
  arrivalTime :: nat
  demand :: real
  curveId :: string
  priority_item :: int

text \<open>An entry of \<^verbatim>\<open>demandValues\<close>: \<^verbatim>\<open>{minute, demand, usage, queueSize, shed}\<close>.\<close>

record demandValue =
  minute_dv :: nat
  demand_dv :: real
  usage_dv :: real
  queueSize_dv :: real
  shed_dv :: real

text \<open>A chart point, pushed every fifth minute. The formatted \<^verbatim>\<open>time\<close> label is left out;
  the properties \<^verbatim>\<open>demand_<id>\<close> are the association list \<open>demandPerCurve\<close>.\<close>

record point =
  hour :: real
  inputDemand :: real
  actualUtilization :: real
  capacity :: real
  queuedDemand :: real
  shedDemand_pt :: real
  demandPerCurve :: "(string \<times> real) list"

record simState =
  queuesByCurve :: "string \<Rightarrow> queueItem list"
  utilizationByCurve :: "string \<Rightarrow> real"
  shedByCurve :: "string \<Rightarrow> real"
  usageValuesByCurve :: "string \<Rightarrow> (nat \<times> real) list"
  totalUtilization :: real
  totalShedDemand :: real
  demandValues :: "demandValue list"
  points :: "point list"
  shedThisMinute :: real
  availableCapacity :: real
  actualUsage :: real

subsection \<open>Demand generators\<close>

text \<open>The two generators, for a standard deviation other than 0. At \<open>stdDev = 0\<close> the code
  divides by zero: \<^verbatim>\<open>gaussian\<close> yields \<^verbatim>\<open>Math.exp(-Infinity) = 0\<close>, or NaN where \<open>x = mean\<close>, the
  scale factor is an infinity (or NaN), and all 1440 samples are NaN, which then makes
  \<^verbatim>\<open>availableCapacity\<close> NaN for every curve served later in the minute. The reals have no such
  values and HOL's \<open>x / 0 = 0\<close> gives other ones (a bell that is constantly 1 and an array of
  zeros), so at a spread of 0 these definitions do not describe the code; the theorems
  below about the served and shed totals of generated demand (C1, C3 and C6) assume that
  every curve that is not linear has a positive spread.\<close>

definition gaussian :: "real \<Rightarrow> real \<Rightarrow> real \<Rightarrow> real" where
  "gaussian x mean stdDev = exp (- 0.5 * ((x - mean) / stdDev) ^ 2)"

definition generateGaussianDemand :: "real \<Rightarrow> real \<Rightarrow> real \<Rightarrow> real list" where
  "generateGaussianDemand volume peak width =
     (let stdDevMinutes = width * 60;
          peakMinute = peak * 60;
          gaussianIntegral = stdDevMinutes * sqrt (2 * pi);
          scaleFactor = volume / gaussianIntegral
      in map (\<lambda>minute. scaleFactor * gaussian (real minute) peakMinute stdDevMinutes)
           [0..<1440])"

definition generateLinearDemand :: "real \<Rightarrow> real list" where
  "generateLinearDemand volume =
     (let constantDemand = volume / 1440 in replicate 1440 constantDemand)"

text \<open>The branch of the first \<^verbatim>\<open>curves.forEach\<close>: the array one curve gets.\<close>

definition curveDemandArray :: "curve \<Rightarrow> real list" where
  "curveDemandArray c =
     (if type_curve c = ''linear'' then generateLinearDemand (totalDemand c)
      else generateGaussianDemand (totalDemand c) (peakHour c) (curveWidth c))"

definition demandByCurve :: "curve list \<Rightarrow> string \<Rightarrow> real list" where
  "demandByCurve curves =
     fold (\<lambda>c m. m(id_curve c := curveDemandArray c)) curves (\<lambda>_. [])"

subsection \<open>Step 1: timed-out requests\<close>

definition timedOut :: "nat \<Rightarrow> int \<Rightarrow> queueItem \<Rightarrow> bool" where
  "timedOut minute queueTimeout item \<longleftrightarrow> int minute - int (arrivalTime item) > queueTimeout"

text \<open>The backward loop with \<^verbatim>\<open>splice\<close> over one queue: the queue that is left and the
  amounts it shed, the last item's first (the recursion returns from the end of the list,
  as the index \<^verbatim>\<open>i\<close> runs).\<close>

fun removeTimedOut :: "nat \<Rightarrow> int \<Rightarrow> queueItem list \<Rightarrow> queueItem list \<times> real" where
  "removeTimedOut minute queueTimeout [] = ([], 0)"
| "removeTimedOut minute queueTimeout (item # rest) =
     (case removeTimedOut minute queueTimeout rest of
        (kept, shedAmount) \<Rightarrow>
          if timedOut minute queueTimeout item then (kept, shedAmount + demand item)
          else (item # kept, shedAmount))"

definition expireCurve :: "nat \<Rightarrow> int \<Rightarrow> curve \<Rightarrow> simState \<Rightarrow> simState" where
  "expireCurve minute queueTimeout c s =
     (case removeTimedOut minute queueTimeout (queuesByCurve s (id_curve c)) of
        (kept, shedAmount) \<Rightarrow>
          s\<lparr> shedThisMinute := shedThisMinute s + shedAmount,
             totalShedDemand := totalShedDemand s + shedAmount,
             shedByCurve := (shedByCurve s)(id_curve c := shedByCurve s (id_curve c) + shedAmount),
             queuesByCurve := (queuesByCurve s)(id_curve c := kept) \<rparr>)"

definition expireStep :: "nat \<Rightarrow> int \<Rightarrow> curve list \<Rightarrow> simState \<Rightarrow> simState" where
  "expireStep minute queueTimeout curves s =
     fold (expireCurve minute queueTimeout) curves (s\<lparr> shedThisMinute := 0 \<rparr>)"

subsection \<open>Steps 2 to 4: serving in priority order\<close>

text \<open>The loop over one sorted queue, \<^verbatim>\<open>for (i = 0; i < queue.length && availableCapacity > 0; i++)\<close>,
  threading \<^verbatim>\<open>availableCapacity\<close>, \<^verbatim>\<open>actualUsage\<close> and \<^verbatim>\<open>curveUsageThisMinute\<close>.\<close>

fun serveQueue ::
  "queueItem list \<Rightarrow> real \<Rightarrow> real \<Rightarrow> real \<Rightarrow> queueItem list \<times> real \<times> real \<times> real" where
  "serveQueue [] avail used curveUsage = ([], avail, used, curveUsage)"
| "serveQueue (item # rest) avail used curveUsage =
     (if avail > 0 then
        (let servedFromQueue = min (demand item) avail in
         case serveQueue rest (avail - servedFromQueue) (used + servedFromQueue)
                (curveUsage + servedFromQueue) of
           (rest', avail', used', curveUsage') \<Rightarrow>
             (item\<lparr> demand := demand item - servedFromQueue \<rparr> # rest', avail', used', curveUsage'))
      else (item # rest, avail, used, curveUsage))"

text \<open>The body of \<^verbatim>\<open>sortedCurves.forEach\<close> for one curve.\<close>

definition processCurve :: "nat \<Rightarrow> (string \<Rightarrow> real list) \<Rightarrow> curve \<Rightarrow> simState \<Rightarrow> simState" where
  "processCurve minute dem c s =
     (let cid = id_curve c;
          curveDemand = dem cid ! minute;
          immediatelyServed = min curveDemand (availableCapacity s);
          excessDemand = curveDemand - immediatelyServed;
          pushed = (if excessDemand > 0
                    then queuesByCurve s cid @
                           [\<lparr> arrivalTime = minute, demand = excessDemand, curveId = cid,
                              priority_item = priority c \<rparr>]
                    else queuesByCurve s cid)
      in case serveQueue (sort_key arrivalTime pushed)
                (availableCapacity s - immediatelyServed)
                (actualUsage s + immediatelyServed) immediatelyServed of
           (served, avail', used', curveUsageThisMinute) \<Rightarrow>
             s\<lparr> queuesByCurve := (queuesByCurve s)(cid := filter (\<lambda>item. demand item > 0) served),
                availableCapacity := avail',
                actualUsage := used',
                utilizationByCurve :=
                  (utilizationByCurve s)(cid := utilizationByCurve s cid + curveUsageThisMinute),
                usageValuesByCurve :=
                  (usageValuesByCurve s)
                    (cid := usageValuesByCurve s cid @ [(minute, curveUsageThisMinute)]) \<rparr>)"

definition serveStep ::
  "real \<Rightarrow> nat \<Rightarrow> (string \<Rightarrow> real list) \<Rightarrow> curve list \<Rightarrow> simState \<Rightarrow> simState" where
  "serveStep machines minute dem curves s =
     fold (processCurve minute dem) (sort_key priority curves)
       (s\<lparr> availableCapacity := machines, actualUsage := 0 \<rparr>)"

subsection \<open>One minute, the day, the end of the day\<close>

definition queuedTotal :: "curve list \<Rightarrow> simState \<Rightarrow> real" where
  "queuedTotal curves s =
     fold (\<lambda>c sum. sum + fold (\<lambda>item qSum. qSum + demand item) (queuesByCurve s (id_curve c)) 0)
       curves 0"

definition minuteDemand :: "(string \<Rightarrow> real list) \<Rightarrow> curve list \<Rightarrow> nat \<Rightarrow> real" where
  "minuteDemand dem curves minute = fold (\<lambda>c sum. sum + dem (id_curve c) ! minute) curves 0"

definition recordMinute ::
  "real \<Rightarrow> nat \<Rightarrow> (string \<Rightarrow> real list) \<Rightarrow> curve list \<Rightarrow> simState \<Rightarrow> simState" where
  "recordMinute machines minute dem curves s =
     (let s' = s\<lparr> totalUtilization := totalUtilization s + actualUsage s \<rparr>;
          queueSize = queuedTotal curves s';
          s'' = s'\<lparr> demandValues := demandValues s' @
                  [\<lparr> minute_dv = minute, demand_dv = minuteDemand dem curves minute,
                     usage_dv = actualUsage s', queueSize_dv = queueSize,
                     shed_dv = shedThisMinute s' \<rparr>] \<rparr>
      in if minute mod 5 = 0
         then s''\<lparr> points := points s'' @
                [\<lparr> hour = real minute / 60, inputDemand = minuteDemand dem curves minute,
                   actualUtilization = actualUsage s', capacity = machines,
                   queuedDemand = queueSize, shedDemand_pt = shedThisMinute s',
                   demandPerCurve =
                     map (\<lambda>c. (''demand_'' @ id_curve c, dem (id_curve c) ! minute)) curves \<rparr>] \<rparr>
         else s'')"

definition minuteStep ::
  "real \<Rightarrow> curve list \<Rightarrow> int \<Rightarrow> (string \<Rightarrow> real list) \<Rightarrow> nat \<Rightarrow> simState \<Rightarrow> simState" where
  "minuteStep machines curves queueTimeout dem minute s =
     recordMinute machines minute dem curves
       (serveStep machines minute dem curves (expireStep minute queueTimeout curves s))"

definition initialState :: simState where
  "initialState =
     \<lparr> queuesByCurve = (\<lambda>_. []), utilizationByCurve = (\<lambda>_. 0), shedByCurve = (\<lambda>_. 0),
       usageValuesByCurve = (\<lambda>_. []), totalUtilization = 0, totalShedDemand = 0,
       demandValues = [], points = [], shedThisMinute = 0, availableCapacity = 0,
       actualUsage = 0 \<rparr>"

text \<open>The state after the first \<open>n\<close> iterations of \<^verbatim>\<open>for (minute = 0; minute < 1440; minute++)\<close>.\<close>

definition simulateMinutes ::
  "real \<Rightarrow> curve list \<Rightarrow> int \<Rightarrow> (string \<Rightarrow> real list) \<Rightarrow> nat \<Rightarrow> simState" where
  "simulateMinutes machines curves queueTimeout dem n =
     fold (minuteStep machines curves queueTimeout dem) [0..<n] initialState"

text \<open>Step 5: what is still queued after the last minute is shed.\<close>

definition shedItem :: "string \<Rightarrow> queueItem \<Rightarrow> simState \<Rightarrow> simState" where
  "shedItem cid item s =
     s\<lparr> totalShedDemand := totalShedDemand s + demand item,
        shedByCurve := (shedByCurve s)(cid := shedByCurve s cid + demand item) \<rparr>"

definition shedRemaining :: "curve list \<Rightarrow> simState \<Rightarrow> simState" where
  "shedRemaining curves s =
     fold (\<lambda>c s'. fold (shedItem (id_curve c)) (queuesByCurve s' (id_curve c)) s') curves s"

text \<open>The state \<^verbatim>\<open>runFullSimulation\<close> computes its metrics from.\<close>

definition finalState :: "real \<Rightarrow> curve list \<Rightarrow> int \<Rightarrow> simState" where
  "finalState machines curves queueTimeout =
     shedRemaining curves
       (simulateMinutes machines curves queueTimeout (demandByCurve curves) 1440)"

subsection \<open>The report\<close>

text \<open>The metrics \<^verbatim>\<open>runFullSimulation\<close> returns. \<^verbatim>\<open>Math.round\<close> is \<open>round\<close> (to the nearest
  integer, a half upwards). The \<^verbatim>\<open>toFixed(1)\<close> formatting of the other fields is left out:
  they hold the number that is formatted. A quotient whose divisor is \<open>0\<close> is NaN or an
  infinity in JavaScript; such a field is \<open>None\<close> here.\<close>

record curveMetrics =
  totalUtilization_cm :: int
  peakUtilization_cm :: real
  avgUtilization_cm :: real
  shedDemand_cm :: int
  shedPercent_cm :: "real option"

record metrics =
  totalUtilization_m :: int
  peakUtilization_m :: real
  avgUtilization_m :: real
  peakPercent_m :: "real option"
  avgPercent_m :: "real option"
  shedDemand_m :: int
  shedPercent_m :: "real option"
  byCurve :: "string \<Rightarrow> curveMetrics option"

record simResult =
  data_res :: "point list"
  metrics_res :: metrics

definition percentOf :: "real \<Rightarrow> real \<Rightarrow> real option" where
  "percentOf x y = (if y = 0 then None else Some (x / y * 100))"

text \<open>The mean of the 180 largest usages: a stable descending sort, \<^verbatim>\<open>slice(0, 180)\<close>, the sum
  over 180.\<close>

definition peakOf :: "real list \<Rightarrow> real" where
  "peakOf usages = fold (\<lambda>u sum. sum + u) (take 180 (sort_key (\<lambda>u. - u) usages)) 0 / 180"

definition curveReport :: "simState \<Rightarrow> curve \<Rightarrow> curveMetrics" where
  "curveReport s c =
     \<lparr> totalUtilization_cm = round (utilizationByCurve s (id_curve c)),
       peakUtilization_cm = peakOf (map snd (usageValuesByCurve s (id_curve c))),
       avgUtilization_cm = utilizationByCurve s (id_curve c) / 1440,
       shedDemand_cm = round (shedByCurve s (id_curve c)),
       shedPercent_cm = percentOf (shedByCurve s (id_curve c)) (totalDemand c) \<rparr>"

definition report :: "real \<Rightarrow> curve list \<Rightarrow> simState \<Rightarrow> simResult" where
  "report machines curves s =
     (let peakUtilization = peakOf (map usage_dv (demandValues s));
          avgUtilization = totalUtilization s / 1440;
          aggregateTotalDemand = fold (\<lambda>c sum. sum + totalDemand c) curves 0
      in \<lparr> data_res = points s,
           metrics_res =
             \<lparr> totalUtilization_m = round (totalUtilization s),
               peakUtilization_m = peakUtilization,
               avgUtilization_m = avgUtilization,
               peakPercent_m = percentOf peakUtilization machines,
               avgPercent_m = percentOf avgUtilization machines,
               shedDemand_m = round (totalShedDemand s),
               shedPercent_m = percentOf (totalShedDemand s) aggregateTotalDemand,
               byCurve = fold (\<lambda>c m. m(id_curve c \<mapsto> curveReport s c)) curves Map.empty \<rparr> \<rparr>)"

text \<open>\<^verbatim>\<open>runFullSimulation(machines, curves, queueTimeout)\<close>. The function has no \<^verbatim>\<open>throw\<close>, no
  return before the last line and no test of its arguments: every call runs the 1440 minutes
  and returns the report, so the result is always \<open>Some\<close> (\<open>None\<close> would be a call that
  throws instead of returning).\<close>

definition runFullSimulation :: "real \<Rightarrow> curve list \<Rightarrow> int \<Rightarrow> simResult option" where
  "runFullSimulation machines curves queueTimeout =
     Some (report machines curves (finalState machines curves queueTimeout))"

subsection \<open>Quantities of the proofs\<close>

text \<open>The demand waiting in a queue; what a curve id accounts for (served, shed and waiting);
  the invariant that every queued item has a positive remaining demand; how often an id
  occurs among the curves.\<close>

definition queueSum :: "queueItem list \<Rightarrow> real" where
  "queueSum q = sum_list (map demand q)"

definition held :: "simState \<Rightarrow> string \<Rightarrow> real" where
  "held s cid = utilizationByCurve s cid + shedByCurve s cid + queueSum (queuesByCurve s cid)"

definition positiveQueues :: "simState \<Rightarrow> bool" where
  "positiveQueues s \<longleftrightarrow> (\<forall>cid. \<forall>item \<in> set (queuesByCurve s cid). 0 < demand item)"

definition occurrences :: "string \<Rightarrow> curve list \<Rightarrow> nat" where
  "occurrences cid curves = length (filter (\<lambda>c. id_curve c = cid) curves)"

text \<open>What the expire step removes from the queue of an id; the ids of the curves; the
  agreement of the aggregate totals with the counters of the curves; a curve whose generated
  demand is not negative.\<close>

definition expiredAmount :: "nat \<Rightarrow> int \<Rightarrow> simState \<Rightarrow> string \<Rightarrow> real" where
  "expiredAmount m qt s cid = queueSum (filter (timedOut m qt) (queuesByCurve s cid))"

definition curveIds :: "curve list \<Rightarrow> string set" where
  "curveIds cs = id_curve ` set cs"

definition totalsAgree :: "curve list \<Rightarrow> simState \<Rightarrow> bool" where
  "totalsAgree cs s \<longleftrightarrow>
     totalUtilization s = sum (utilizationByCurve s) (curveIds cs) \<and>
     totalShedDemand s = sum (shedByCurve s) (curveIds cs)"

definition wellFormedCurve :: "curve \<Rightarrow> bool" where
  "wellFormedCurve c \<longleftrightarrow>
     0 \<le> totalDemand c \<and> (type_curve c \<noteq> ''linear'' \<longrightarrow> 0 < curveWidth c)"

subsection \<open>Configurations of the test suite and of the examples\<close>

text \<open>Test 6 of \<^verbatim>\<open>test.js\<close>: a linear and a Gaussian curve.\<close>

definition test6Curves :: "curve list" where
  "test6Curves =
     [\<lparr> id_curve = ''curve-1'', type_curve = ''linear'', totalDemand = 50000, peakHour = 0,
         curveWidth = 0, priority = 1 \<rparr>,
      \<lparr> id_curve = ''curve-2'', type_curve = ''gaussian'', totalDemand = 75000, peakHour = 12,
         curveWidth = 2, priority = 2 \<rparr>]"

text \<open>A Gaussian curve as wide as the day (a spread of 24 hours).\<close>

definition wideCurve :: curve where
  "wideCurve =
     \<lparr> id_curve = ''curve-1'', type_curve = ''gaussian'', totalDemand = 100000, peakHour = 12,
       curveWidth = 24, priority = 1 \<rparr>"

text \<open>A curve whose shape is neither of the two names the code knows.\<close>

definition triangleCurve :: curve where
  "triangleCurve =
     \<lparr> id_curve = ''curve-1'', type_curve = ''triangle'', totalDemand = 1000, peakHour = 9,
       curveWidth = 1, priority = 1 \<rparr>"

text \<open>Test 7 of \<^verbatim>\<open>test.js\<close>: two linear curves, 150 and 100 a minute (a linear curve has no
  \<^verbatim>\<open>peakHour\<close> and no \<^verbatim>\<open>curveWidth\<close>; the fields are never read for it and are \<open>0\<close> here).\<close>

definition p1Curve :: curve where
  "p1Curve =
     \<lparr> id_curve = ''p1'', type_curve = ''linear'', totalDemand = 216000, peakHour = 0,
       curveWidth = 0, priority = 1 \<rparr>"

definition p2Curve :: curve where
  "p2Curve =
     \<lparr> id_curve = ''p2'', type_curve = ''linear'', totalDemand = 144000, peakHour = 0,
       curveWidth = 0, priority = 2 \<rparr>"

text \<open>Two curves of one shape, one volume (100 a minute) and one priority, as in test 8 but
  linear.\<close>

definition twinCurves :: "curve list" where
  "twinCurves =
     [\<lparr> id_curve = ''curve-1'', type_curve = ''linear'', totalDemand = 144000, peakHour = 0,
         curveWidth = 0, priority = 1 \<rparr>,
      \<lparr> id_curve = ''curve-2'', type_curve = ''linear'', totalDemand = 144000, peakHour = 0,
         curveWidth = 0, priority = 1 \<rparr>]"

text \<open>Test 4 of \<^verbatim>\<open>test.js\<close>: one linear curve of volume 100000.\<close>

definition test4Curve :: curve where
  "test4Curve =
     \<lparr> id_curve = ''curve-1'', type_curve = ''linear'', totalDemand = 100000, peakHour = 0,
       curveWidth = 0, priority = 1 \<rparr>"

subsection \<open>The slot view of the queues\<close>

text \<open>For the comparison of two runs that differ in the timeout only, the queues are read
  as a tally: what has been served so far, the capacity left in the minute, and for every
  slot (a curve id and an arrival minute) the demand still waiting. Serving one slot,
  an arrival and the expiry of a set of slots are the three moves on a tally; \<open>phi\<close> and
  \<open>gam\<close> are the quantities that every move maps monotonically.\<close>

record 'i tally =
  servedSoFar :: real
  capacityLeft :: real
  remaining :: "'i \<Rightarrow> real"

definition serveSlot :: "'i \<Rightarrow> 'i tally \<Rightarrow> 'i tally" where
  "serveSlot i x =
     (let s = min (remaining x i) (capacityLeft x)
      in x\<lparr> servedSoFar := servedSoFar x + s, capacityLeft := capacityLeft x - s,
            remaining := (remaining x)(i := remaining x i - s) \<rparr>)"

definition arrive :: "'i \<Rightarrow> real \<Rightarrow> 'i tally \<Rightarrow> 'i tally" where
  "arrive i d x = x\<lparr> remaining := (remaining x)(i := remaining x i + d) \<rparr>"

definition expireSlots :: "'i set \<Rightarrow> 'i tally \<Rightarrow> 'i tally" where
  "expireSlots E x = x\<lparr> remaining := (\<lambda>i. if i \<in> E then 0 else remaining x i) \<rparr>"

definition phi :: "'i set \<Rightarrow> 'i tally \<Rightarrow> real" where
  "phi Y x = servedSoFar x + sum (remaining x) Y"

definition gam :: "'i set \<Rightarrow> 'i tally \<Rightarrow> real" where
  "gam Y x = servedSoFar x + capacityLeft x + sum (remaining x) Y"

definition dominated :: "'i tally \<Rightarrow> 'i tally \<Rightarrow> bool" where
  "dominated x y \<longleftrightarrow> (\<forall>Y. finite Y \<longrightarrow> phi Y x \<le> phi Y y \<and> gam Y x \<le> gam Y y)"

text \<open>The demand waiting in a queue for one arrival minute; a queue in strictly ascending
  order of arrival whose items arrived before minute \<open>m\<close> and have a positive remaining
  demand; the tally of a state inside a minute, and at the end of a minute; the slot moves
  that stand for one curve, and for one minute.\<close>

definition slotRem :: "queueItem list \<Rightarrow> nat \<Rightarrow> real" where
  "slotRem q a = queueSum (filter (\<lambda>item. arrivalTime item = a) q)"

definition goodQueue :: "nat \<Rightarrow> queueItem list \<Rightarrow> bool" where
  "goodQueue m q \<longleftrightarrow>
     sorted_wrt (<) (map arrivalTime q) \<and> (\<forall>item \<in> set q. arrivalTime item < m \<and> 0 < demand item)"

definition tallyOf :: "simState \<Rightarrow> (string \<times> nat) tally" where
  "tallyOf s =
     \<lparr> servedSoFar = totalUtilization s + actualUsage s, capacityLeft = availableCapacity s,
       remaining = (\<lambda>i. slotRem (queuesByCurve s (fst i)) (snd i)) \<rparr>"

definition curveSlots ::
  "nat \<Rightarrow> (string \<Rightarrow> real list) \<Rightarrow> curve \<Rightarrow> (string \<times> nat) tally \<Rightarrow> (string \<times> nat) tally" where
  "curveSlots m dem c x =
     fold serveSlot (map (Pair (id_curve c)) [0..<m])
       (serveSlot (id_curve c, m) (arrive (id_curve c, m) (dem (id_curve c) ! m) x))"

definition allGood :: "nat \<Rightarrow> simState \<Rightarrow> bool" where
  "allGood m s \<longleftrightarrow> (\<forall>cid. goodQueue m (queuesByCurve s cid))"

definition expiredSlots :: "nat \<Rightarrow> int \<Rightarrow> curve list \<Rightarrow> (string \<times> nat) set" where
  "expiredSlots m qt cs = {i. fst i \<in> curveIds cs \<and> int m - int (snd i) > qt}"

definition tallyAtMinuteEnd :: "simState \<Rightarrow> (string \<times> nat) tally" where
  "tallyAtMinuteEnd s =
     \<lparr> servedSoFar = totalUtilization s, capacityLeft = availableCapacity s,
       remaining = (\<lambda>i. slotRem (queuesByCurve s (fst i)) (snd i)) \<rparr>"

definition slotMinute ::
  "real \<Rightarrow> curve list \<Rightarrow> int \<Rightarrow> (string \<Rightarrow> real list) \<Rightarrow> nat \<Rightarrow>
     (string \<times> nat) tally \<Rightarrow> (string \<times> nat) tally" where
  "slotMinute machines cs qt dem m x =
     fold (curveSlots m dem) (sort_key priority cs)
       ((expireSlots (expiredSlots m qt cs) x)\<lparr>capacityLeft := machines\<rparr>)"

section \<open>Basic facts\<close>

lemma queueSum_simps [simp]:
  "queueSum [] = 0" "queueSum (x # xs) = demand x + queueSum xs"
  "queueSum (xs @ ys) = queueSum xs + queueSum ys"
  by (simp_all add: queueSum_def)

lemma queueSum_insort: "queueSum (insort_key f x xs) = demand x + queueSum xs"
  by (induction xs) auto

lemma queueSum_sort: "queueSum (sort_key f xs) = queueSum xs"
  by (induction xs) (auto simp: queueSum_insort)

lemma queueSum_filter_pos:
  "\<forall>item \<in> set q. 0 \<le> demand item \<Longrightarrow> queueSum (filter (\<lambda>item. demand item > 0) q) = queueSum q"
  by (induction q) auto

lemma removeTimedOut_fst:
  "fst (removeTimedOut minute qt q) = filter (\<lambda>item. \<not> timedOut minute qt item) q"
  by (induction q) (auto split: prod.splits)

lemma removeTimedOut_snd:
  "snd (removeTimedOut minute qt q) = queueSum (filter (timedOut minute qt) q)"
  by (induction q) (auto split: prod.splits)

lemma removeTimedOut_conserve:
  "queueSum (fst (removeTimedOut minute qt q)) + snd (removeTimedOut minute qt q) = queueSum q"
  by (induction q) (auto split: prod.splits)

lemma serveQueue_arrival:
  "map arrivalTime (fst (serveQueue q a u cu)) = map arrivalTime q"
  by (induction q a u cu rule: serveQueue.induct) (auto simp: Let_def split: prod.splits)

lemma serveQueue_sums:
  "serveQueue q a u cu = (q', a', u', cu') \<Longrightarrow>
     a' = a - (queueSum q - queueSum q') \<and> u' = u + (queueSum q - queueSum q') \<and>
     cu' = cu + (queueSum q - queueSum q')"
proof (induction q a u cu arbitrary: q' a' u' cu' rule: serveQueue.induct)
  case (1 avail used curveUsage)
  then show ?case by simp
next
  case (2 item rest avail used curveUsage)
  show ?case
  proof (cases "avail > 0")
    case True
    obtain r1 a1 u1 c1 where rec: "serveQueue rest (avail - min (demand item) avail)
        (used + min (demand item) avail) (curveUsage + min (demand item) avail) = (r1, a1, u1, c1)"
      by (metis prod_cases4)
    from 2(1)[OF True refl rec] have ih: "a1 = avail - min (demand item) avail - (queueSum rest - queueSum r1)"
      "u1 = used + min (demand item) avail + (queueSum rest - queueSum r1)"
      "c1 = curveUsage + min (demand item) avail + (queueSum rest - queueSum r1)" by auto
    from 2(2) True rec have "q' = item\<lparr>demand := demand item - min (demand item) avail\<rparr> # r1" "a' = a1" "u' = u1" "cu' = c1"
      by (auto simp: Let_def)
    with ih show ?thesis by simp
  next
    case False
    with 2(2) show ?thesis by simp
  qed
qed

lemma serveQueue_nonneg:
  "\<forall>item \<in> set q. 0 \<le> demand item \<Longrightarrow>
     \<forall>item \<in> set (fst (serveQueue q a u cu)). 0 \<le> demand item"
  by (induction q a u cu rule: serveQueue.induct) (auto simp: Let_def split: prod.splits)

lemma serveQueue_avail_nonneg:
  "0 \<le> a \<Longrightarrow> serveQueue q a u cu = (q', a', u', cu') \<Longrightarrow> 0 \<le> a'"
  by (induction q a u cu arbitrary: q' a' u' cu' rule: serveQueue.induct)
     (auto simp: Let_def split: prod.splits if_splits)

subsection \<open>One curve in the loop over the sorted curves\<close>

lemma processCurve_frame:
  "totalUtilization (processCurve m dem c s) = totalUtilization s"
  "totalShedDemand (processCurve m dem c s) = totalShedDemand s"
  "shedByCurve (processCurve m dem c s) = shedByCurve s"
  "demandValues (processCurve m dem c s) = demandValues s"
  "points (processCurve m dem c s) = points s"
  "shedThisMinute (processCurve m dem c s) = shedThisMinute s"
  by (simp_all add: processCurve_def Let_def split: prod.splits)

lemma processCurve_other:
  "cid \<noteq> id_curve c \<Longrightarrow> queuesByCurve (processCurve m dem c s) cid = queuesByCurve s cid"
  "cid \<noteq> id_curve c \<Longrightarrow> utilizationByCurve (processCurve m dem c s) cid = utilizationByCurve s cid"
  "cid \<noteq> id_curve c \<Longrightarrow> usageValuesByCurve (processCurve m dem c s) cid = usageValuesByCurve s cid"
  by (simp_all add: processCurve_def Let_def split: prod.splits)

lemma processCurve_positive:
  assumes "positiveQueues s"
  shows "positiveQueues (processCurve m dem c s)"
  using assms by (auto simp: positiveQueues_def processCurve_def Let_def split: prod.splits)

lemma processCurve_held_other:
  "cid \<noteq> id_curve c \<Longrightarrow> held (processCurve m dem c s) cid = held s cid"
  by (simp add: held_def processCurve_other processCurve_frame)

lemma processCurve_held:
  assumes "positiveQueues s"
  shows "held (processCurve m dem c s) (id_curve c) = held s (id_curve c) + dem (id_curve c) ! m"
proof -
  let ?cid = "id_curve c"
  let ?d = "dem ?cid ! m"
  let ?imm = "min ?d (availableCapacity s)"
  let ?pushed = "(if ?d - ?imm > 0
                    then queuesByCurve s ?cid @
                           [\<lparr> arrivalTime = m, demand = ?d - ?imm, curveId = ?cid,
                              priority_item = priority c \<rparr>]
                    else queuesByCurve s ?cid)"
  obtain q' a' u' cu' where sq: "serveQueue (sort_key arrivalTime ?pushed)
                (availableCapacity s - ?imm) (actualUsage s + ?imm) ?imm = (q', a', u', cu')"
    by (metis prod_cases4)
  have pos: "\<forall>item \<in> set ?pushed. 0 \<le> demand item"
    using assms by (auto simp: positiveQueues_def less_imp_le)
  then have "\<forall>item \<in> set (sort_key arrivalTime ?pushed). 0 \<le> demand item" by simp
  from serveQueue_nonneg[OF this, of "availableCapacity s - ?imm" "actualUsage s + ?imm" ?imm] sq
  have nn: "\<forall>item \<in> set q'. 0 \<le> demand item" by simp
  have cu: "cu' = ?imm + (queueSum ?pushed - queueSum q')"
    using serveQueue_sums[OF sq] by (simp add: queueSum_sort)
  have push: "queueSum ?pushed = queueSum (queuesByCurve s ?cid) + (?d - ?imm)"
    by auto
  have "held (processCurve m dem c s) ?cid =
      utilizationByCurve s ?cid + cu' + shedByCurve s ?cid + queueSum (filter (\<lambda>item. demand item > 0) q')"
    using sq by (simp add: held_def processCurve_def Let_def)
  also have "\<dots> = utilizationByCurve s ?cid + cu' + shedByCurve s ?cid + queueSum q'"
    by (simp add: queueSum_filter_pos[OF nn])
  finally show ?thesis using cu push by (simp add: held_def)
qed

lemma processCurve_capacity:
  "availableCapacity (processCurve m dem c s) + actualUsage (processCurve m dem c s) =
     availableCapacity s + actualUsage s"
proof -
  let ?cid = "id_curve c"
  let ?d = "dem ?cid ! m"
  let ?imm = "min ?d (availableCapacity s)"
  let ?pushed = "(if ?d - ?imm > 0
                    then queuesByCurve s ?cid @
                           [\<lparr> arrivalTime = m, demand = ?d - ?imm, curveId = ?cid,
                              priority_item = priority c \<rparr>]
                    else queuesByCurve s ?cid)"
  obtain q' a' u' cu' where sq: "serveQueue (sort_key arrivalTime ?pushed)
                (availableCapacity s - ?imm) (actualUsage s + ?imm) ?imm = (q', a', u', cu')"
    by (metis prod_cases4)
  from serveQueue_sums[OF sq] have "a' + u' = availableCapacity s + actualUsage s" by simp
  then show ?thesis using sq by (simp add: processCurve_def Let_def)
qed

lemma processCurve_usage:
  "actualUsage (processCurve m dem c s) - actualUsage s =
     utilizationByCurve (processCurve m dem c s) (id_curve c) - utilizationByCurve s (id_curve c)"
proof -
  let ?cid = "id_curve c"
  let ?d = "dem ?cid ! m"
  let ?imm = "min ?d (availableCapacity s)"
  let ?pushed = "(if ?d - ?imm > 0
                    then queuesByCurve s ?cid @
                           [\<lparr> arrivalTime = m, demand = ?d - ?imm, curveId = ?cid,
                              priority_item = priority c \<rparr>]
                    else queuesByCurve s ?cid)"
  obtain q' a' u' cu' where sq: "serveQueue (sort_key arrivalTime ?pushed)
                (availableCapacity s - ?imm) (actualUsage s + ?imm) ?imm = (q', a', u', cu')"
    by (metis prod_cases4)
  from serveQueue_sums[OF sq] have "u' - actualUsage s = cu'" by simp
  then show ?thesis using sq by (simp add: processCurve_def Let_def)
qed

lemma processCurve_avail_nonneg:
  assumes "0 \<le> availableCapacity s"
  shows "0 \<le> availableCapacity (processCurve m dem c s)"
proof -
  let ?cid = "id_curve c"
  let ?d = "dem ?cid ! m"
  let ?imm = "min ?d (availableCapacity s)"
  let ?pushed = "(if ?d - ?imm > 0
                    then queuesByCurve s ?cid @
                           [\<lparr> arrivalTime = m, demand = ?d - ?imm, curveId = ?cid,
                              priority_item = priority c \<rparr>]
                    else queuesByCurve s ?cid)"
  obtain q' a' u' cu' where sq: "serveQueue (sort_key arrivalTime ?pushed)
                (availableCapacity s - ?imm) (actualUsage s + ?imm) ?imm = (q', a', u', cu')"
    by (metis prod_cases4)
  have "0 \<le> availableCapacity s - ?imm" by simp
  from serveQueue_avail_nonneg[OF this sq] show ?thesis
    using sq by (simp add: processCurve_def Let_def)
qed

subsection \<open>The loop over the sorted curves\<close>

lemma occurrences_simps [simp]:
  "occurrences cid [] = 0"
  "occurrences cid (c # cs) = (if id_curve c = cid then Suc (occurrences cid cs) else occurrences cid cs)"
  by (simp_all add: occurrences_def)

lemma occurrences_sort: "occurrences cid (sort_key f cs) = occurrences cid cs"
  by (simp add: occurrences_def filter_sort)

lemma occurrences_notin: "cid \<notin> id_curve ` set cs \<Longrightarrow> occurrences cid cs = 0"
  by (induction cs) auto

lemma occurrences_distinct:
  "distinct (map id_curve cs) \<Longrightarrow> c \<in> set cs \<Longrightarrow> occurrences (id_curve c) cs = 1"
  by (induction cs) (auto simp: occurrences_notin)

lemma fold_processCurve_positive:
  "positiveQueues s \<Longrightarrow> positiveQueues (fold (processCurve m dem) cs s)"
  by (induction cs arbitrary: s) (auto simp: processCurve_positive)

lemma fold_processCurve_held:
  "positiveQueues s \<Longrightarrow>
     held (fold (processCurve m dem) cs s) cid = held s cid + real (occurrences cid cs) * dem cid ! m"
proof (induction cs arbitrary: s)
  case Nil
  then show ?case by simp
next
  case (Cons c cs)
  have "held (fold (processCurve m dem) cs (processCurve m dem c s)) cid =
      held (processCurve m dem c s) cid + real (occurrences cid cs) * dem cid ! m"
    by (rule Cons.IH) (simp add: processCurve_positive Cons.prems)
  then show ?case
    using processCurve_held[OF Cons.prems, of m dem c] processCurve_held_other[of cid c m dem s]
    by (cases "id_curve c = cid") (auto simp: algebra_simps)
qed

lemma fold_processCurve_frame:
  "totalUtilization (fold (processCurve m dem) cs s) = totalUtilization s"
  "totalShedDemand (fold (processCurve m dem) cs s) = totalShedDemand s"
  "shedByCurve (fold (processCurve m dem) cs s) = shedByCurve s"
  "demandValues (fold (processCurve m dem) cs s) = demandValues s"
  "points (fold (processCurve m dem) cs s) = points s"
  "shedThisMinute (fold (processCurve m dem) cs s) = shedThisMinute s"
  by (induction cs arbitrary: s) (simp_all add: processCurve_frame)

lemma fold_processCurve_capacity:
  "availableCapacity (fold (processCurve m dem) cs s) + actualUsage (fold (processCurve m dem) cs s) =
     availableCapacity s + actualUsage s"
  by (induction cs arbitrary: s) (simp_all add: processCurve_capacity)

lemma fold_processCurve_avail_nonneg:
  "0 \<le> availableCapacity s \<Longrightarrow> 0 \<le> availableCapacity (fold (processCurve m dem) cs s)"
  by (induction cs arbitrary: s) (simp_all add: processCurve_avail_nonneg)

lemma sum_fun_upd_in:
  fixes f :: "'a \<Rightarrow> real"
  assumes "finite A" "a \<in> A"
  shows "sum (f(a := v)) A = sum f A - f a + v"
proof -
  have "sum (f(a := v)) A = (f(a := v)) a + sum (f(a := v)) (A - {a})"
    using assms by (simp add: sum.remove)
  also have "sum (f(a := v)) (A - {a}) = sum f (A - {a})"
    by (rule sum.cong) auto
  also have "sum f (A - {a}) = sum f A - f a"
    using assms by (simp add: sum_diff1)
  finally show ?thesis by simp
qed

lemma processCurve_usage_sum:
  assumes "finite A" "id_curve c \<in> A"
  shows "actualUsage (processCurve m dem c s) - sum (utilizationByCurve (processCurve m dem c s)) A =
     actualUsage s - sum (utilizationByCurve s) A"
proof -
  have "sum (utilizationByCurve (processCurve m dem c s)) A =
      sum ((utilizationByCurve s)(id_curve c := utilizationByCurve (processCurve m dem c s) (id_curve c))) A"
    by (rule sum.cong) (auto simp: processCurve_other)
  also have "\<dots> = sum (utilizationByCurve s) A - utilizationByCurve s (id_curve c)
       + utilizationByCurve (processCurve m dem c s) (id_curve c)"
    by (rule sum_fun_upd_in[OF assms])
  finally show ?thesis using processCurve_usage[of m dem c s] by simp
qed

lemma fold_processCurve_usage_sum:
  "finite A \<Longrightarrow> id_curve ` set cs \<subseteq> A \<Longrightarrow>
     actualUsage (fold (processCurve m dem) cs s) - sum (utilizationByCurve (fold (processCurve m dem) cs s)) A =
     actualUsage s - sum (utilizationByCurve s) A"
  by (induction cs arbitrary: s) (simp_all add: processCurve_usage_sum)

lemma expireCurve_frame:
  "utilizationByCurve (expireCurve m qt c s) = utilizationByCurve s"
  "usageValuesByCurve (expireCurve m qt c s) = usageValuesByCurve s"
  "totalUtilization (expireCurve m qt c s) = totalUtilization s"
  "demandValues (expireCurve m qt c s) = demandValues s"
  "points (expireCurve m qt c s) = points s"
  "availableCapacity (expireCurve m qt c s) = availableCapacity s"
  "actualUsage (expireCurve m qt c s) = actualUsage s"
  by (simp_all add: expireCurve_def split: prod.splits)

lemma expireCurve_queues:
  "queuesByCurve (expireCurve m qt c s) =
     (queuesByCurve s)(id_curve c := filter (\<lambda>item. \<not> timedOut m qt item) (queuesByCurve s (id_curve c)))"
  using removeTimedOut_fst[of m qt "queuesByCurve s (id_curve c)"]
  by (cases "removeTimedOut m qt (queuesByCurve s (id_curve c))") (simp add: expireCurve_def)

lemma expireCurve_shed:
  "shedByCurve (expireCurve m qt c s) =
     (shedByCurve s)(id_curve c := shedByCurve s (id_curve c) +
        queueSum (filter (timedOut m qt) (queuesByCurve s (id_curve c))))"
  "shedThisMinute (expireCurve m qt c s) =
     shedThisMinute s + queueSum (filter (timedOut m qt) (queuesByCurve s (id_curve c)))"
  "totalShedDemand (expireCurve m qt c s) =
     totalShedDemand s + queueSum (filter (timedOut m qt) (queuesByCurve s (id_curve c)))"
  using removeTimedOut_snd[of m qt "queuesByCurve s (id_curve c)"]
  by (cases "removeTimedOut m qt (queuesByCurve s (id_curve c))"; simp add: expireCurve_def)+

lemma queueSum_filter_split:
  "queueSum (filter P q) + queueSum (filter (\<lambda>x. \<not> P x) q) = queueSum q"
  by (induction q) auto

lemma expireCurve_held: "held (expireCurve m qt c s) cid = held s cid"
  using queueSum_filter_split[of "timedOut m qt" "queuesByCurve s (id_curve c)"]
  by (simp add: held_def expireCurve_frame expireCurve_queues expireCurve_shed)

lemma expireCurve_positive: "positiveQueues s \<Longrightarrow> positiveQueues (expireCurve m qt c s)"
  by (auto simp: positiveQueues_def expireCurve_queues)

lemma fold_expireCurve_held: "held (fold (expireCurve m qt) cs s) cid = held s cid"
  by (induction cs arbitrary: s) (simp_all add: expireCurve_held)

lemma fold_expireCurve_positive:
  "positiveQueues s \<Longrightarrow> positiveQueues (fold (expireCurve m qt) cs s)"
  by (induction cs arbitrary: s) (simp_all add: expireCurve_positive)

lemma fold_expireCurve_frame:
  "utilizationByCurve (fold (expireCurve m qt) cs s) = utilizationByCurve s"
  "usageValuesByCurve (fold (expireCurve m qt) cs s) = usageValuesByCurve s"
  "totalUtilization (fold (expireCurve m qt) cs s) = totalUtilization s"
  "demandValues (fold (expireCurve m qt) cs s) = demandValues s"
  "points (fold (expireCurve m qt) cs s) = points s"
  "availableCapacity (fold (expireCurve m qt) cs s) = availableCapacity s"
  "actualUsage (fold (expireCurve m qt) cs s) = actualUsage s"
  by (induction cs arbitrary: s) (simp_all add: expireCurve_frame)

lemma fold_expireCurve_queues:
  "queuesByCurve (fold (expireCurve m qt) cs s) cid =
     (if cid \<in> id_curve ` set cs
      then filter (\<lambda>item. \<not> timedOut m qt item) (queuesByCurve s cid)
      else queuesByCurve s cid)"
  by (induction cs arbitrary: s) (auto simp: expireCurve_queues)

lemma queueSum_filter_none: "\<forall>x \<in> set q. \<not> P x \<Longrightarrow> queueSum (filter P q) = 0"
  by (induction q) auto

lemma fold_expireCurve_shedByCurve:
  "shedByCurve (fold (expireCurve m qt) cs s) cid =
     shedByCurve s cid +
     (if cid \<in> id_curve ` set cs then queueSum (filter (timedOut m qt) (queuesByCurve s cid)) else 0)"
proof (induction cs arbitrary: s)
  case Nil
  then show ?case by simp
next
  case (Cons c cs)
  have none: "queueSum (filter (timedOut m qt) (filter (\<lambda>item. \<not> timedOut m qt item) q)) = 0" for q
    by (rule queueSum_filter_none) simp
  show ?case
    by (simp add: Cons.IH expireCurve_queues expireCurve_shed none)
qed

lemma sum_fun_upd_notin: "a \<notin> A \<Longrightarrow> sum (f(a := v)) A = sum f A"
  by (rule sum.cong) auto

text \<open>What one expire step sheds.\<close>

lemma fold_expireCurve_shedThisMinute:
  "shedThisMinute (fold (expireCurve m qt) cs s) =
     shedThisMinute s + sum (expiredAmount m qt s) (id_curve ` set cs) \<and>
   totalShedDemand (fold (expireCurve m qt) cs s) =
     totalShedDemand s + sum (expiredAmount m qt s) (id_curve ` set cs)"
proof (induction cs arbitrary: s)
  case Nil
  then show ?case by simp
next
  case (Cons c cs)
  let ?s1 = "expireCurve m qt c s"
  let ?A = "id_curve ` set cs"
  have none: "queueSum (filter (timedOut m qt) (filter (\<lambda>item. \<not> timedOut m qt item) q)) = 0" for q
    by (rule queueSum_filter_none) simp
  have e1: "expiredAmount m qt ?s1 = (expiredAmount m qt s)(id_curve c := 0)"
    by (rule ext) (simp add: expiredAmount_def expireCurve_queues none)
  have fin: "finite ?A" by simp
  have "sum (expiredAmount m qt ?s1) ?A = sum (expiredAmount m qt s) (?A - {id_curve c})"
  proof (cases "id_curve c \<in> ?A")
    case True
    then show ?thesis
      unfolding e1 using sum_fun_upd_in[OF fin True, of "expiredAmount m qt s" 0]
      by (simp add: sum_diff1)
  next
    case False
    then have "sum ((expiredAmount m qt s)(id_curve c := 0)) ?A = sum (expiredAmount m qt s) ?A"
      by (rule sum_fun_upd_notin)
    with False show ?thesis unfolding e1 by simp
  qed
  moreover have "sum (expiredAmount m qt s) (insert (id_curve c) ?A) =
      expiredAmount m qt s (id_curve c) + sum (expiredAmount m qt s) (?A - {id_curve c})"
    by (simp add: sum.insert_remove)
  ultimately show ?case
    by (simp add: Cons.IH expireCurve_shed expiredAmount_def)
qed

lemma recordMinute_frame:
  "queuesByCurve (recordMinute machines m dem cs s) = queuesByCurve s"
  "utilizationByCurve (recordMinute machines m dem cs s) = utilizationByCurve s"
  "shedByCurve (recordMinute machines m dem cs s) = shedByCurve s"
  "usageValuesByCurve (recordMinute machines m dem cs s) = usageValuesByCurve s"
  "totalShedDemand (recordMinute machines m dem cs s) = totalShedDemand s"
  "totalUtilization (recordMinute machines m dem cs s) = totalUtilization s + actualUsage s"
  "shedThisMinute (recordMinute machines m dem cs s) = shedThisMinute s"
  "availableCapacity (recordMinute machines m dem cs s) = availableCapacity s"
  "actualUsage (recordMinute machines m dem cs s) = actualUsage s"
  by (simp_all add: recordMinute_def Let_def)

lemma held_cong:
  "queuesByCurve s' = queuesByCurve s \<Longrightarrow> utilizationByCurve s' = utilizationByCurve s \<Longrightarrow>
   shedByCurve s' = shedByCurve s \<Longrightarrow> held s' = held s"
  by (rule ext) (simp add: held_def)

lemma positiveQueues_cong:
  "queuesByCurve s' = queuesByCurve s \<Longrightarrow> positiveQueues s' = positiveQueues s"
  by (simp add: positiveQueues_def)

lemma expireStep_held: "held (expireStep m qt cs s) cid = held s cid"
proof -
  have "held (expireStep m qt cs s) cid = held (s\<lparr>shedThisMinute := 0\<rparr>) cid"
    by (simp add: expireStep_def fold_expireCurve_held)
  then show ?thesis by (simp add: held_def)
qed

lemma expireStep_positive: "positiveQueues s \<Longrightarrow> positiveQueues (expireStep m qt cs s)"
  unfolding expireStep_def by (rule fold_expireCurve_positive) (simp add: positiveQueues_def)

lemma serveStep_held:
  assumes "positiveQueues s"
  shows "held (serveStep machines m dem cs s) cid = held s cid + real (occurrences cid cs) * dem cid ! m"
proof -
  have "positiveQueues (s\<lparr>availableCapacity := machines, actualUsage := 0\<rparr>)"
    using assms by (simp add: positiveQueues_def)
  from fold_processCurve_held[OF this, of m dem "sort_key priority cs" cid]
  show ?thesis by (simp add: serveStep_def occurrences_sort held_def)
qed

lemma serveStep_positive: "positiveQueues s \<Longrightarrow> positiveQueues (serveStep machines m dem cs s)"
  unfolding serveStep_def by (rule fold_processCurve_positive) (simp add: positiveQueues_def)

lemma minuteStep_held:
  assumes "positiveQueues s"
  shows "held (minuteStep machines cs qt dem m s) cid = held s cid + real (occurrences cid cs) * dem cid ! m"
proof -
  have "held (minuteStep machines cs qt dem m s) cid =
      held (serveStep machines m dem cs (expireStep m qt cs s)) cid"
    by (simp add: minuteStep_def held_def recordMinute_frame)
  then show ?thesis
    by (simp add: serveStep_held[OF expireStep_positive[OF assms]] expireStep_held)
qed

lemma minuteStep_positive:
  "positiveQueues s \<Longrightarrow> positiveQueues (minuteStep machines cs qt dem m s)"
  by (simp add: minuteStep_def positiveQueues_cong[OF recordMinute_frame(1)]
        serveStep_positive expireStep_positive)

lemma simulateMinutes_0 [simp]: "simulateMinutes machines cs qt dem 0 = initialState"
  by (simp add: simulateMinutes_def)

lemma simulateMinutes_Suc:
  "simulateMinutes machines cs qt dem (Suc n) =
     minuteStep machines cs qt dem n (simulateMinutes machines cs qt dem n)"
  by (simp add: simulateMinutes_def)

lemma simulateMinutes_positive: "positiveQueues (simulateMinutes machines cs qt dem n)"
proof (induction n)
  case 0
  show ?case by (simp add: positiveQueues_def initialState_def)
next
  case (Suc n)
  then show ?case by (simp add: simulateMinutes_Suc minuteStep_positive)
qed

lemma simulateMinutes_held:
  "held (simulateMinutes machines cs qt dem n) cid =
     real (occurrences cid cs) * (\<Sum>m<n. dem cid ! m)"
proof (induction n)
  case 0
  then show ?case by (simp add: held_def initialState_def)
next
  case (Suc n)
  then show ?case
    by (simp add: simulateMinutes_Suc minuteStep_held[OF simulateMinutes_positive] algebra_simps)
qed

subsection \<open>The end of the day\<close>

lemma fold_shedItem:
  "fold (shedItem cid) q s =
     s\<lparr> totalShedDemand := totalShedDemand s + queueSum q,
        shedByCurve := (shedByCurve s)(cid := shedByCurve s cid + queueSum q) \<rparr>"
  by (induction q arbitrary: s) (simp_all add: shedItem_def algebra_simps)

lemma shedRemaining_frame:
  "queuesByCurve (shedRemaining cs s) = queuesByCurve s"
  "utilizationByCurve (shedRemaining cs s) = utilizationByCurve s"
  "totalUtilization (shedRemaining cs s) = totalUtilization s"
  "demandValues (shedRemaining cs s) = demandValues s"
  unfolding shedRemaining_def by (induction cs arbitrary: s) (simp_all add: fold_shedItem)

lemma shedRemaining_shedByCurve:
  "shedByCurve (shedRemaining cs s) cid =
     shedByCurve s cid + real (occurrences cid cs) * queueSum (queuesByCurve s cid)"
proof (induction cs arbitrary: s)
  case Nil
  then show ?case by (simp add: shedRemaining_def)
next
  case (Cons c cs)
  let ?s1 = "fold (shedItem (id_curve c)) (queuesByCurve s (id_curve c)) s"
  have "shedRemaining (c # cs) s = shedRemaining cs ?s1"
    by (simp add: shedRemaining_def)
  then show ?case
    by (simp add: Cons.IH fold_shedItem algebra_simps)
qed

lemma shedRemaining_total:
  "totalShedDemand (shedRemaining cs s) =
     totalShedDemand s + (\<Sum>c\<leftarrow>cs. queueSum (queuesByCurve s (id_curve c)))"
proof (induction cs arbitrary: s)
  case Nil
  then show ?case by (simp add: shedRemaining_def)
next
  case (Cons c cs)
  let ?s1 = "fold (shedItem (id_curve c)) (queuesByCurve s (id_curve c)) s"
  have "shedRemaining (c # cs) s = shedRemaining cs ?s1"
    by (simp add: shedRemaining_def)
  then show ?case
    by (simp add: Cons.IH fold_shedItem algebra_simps)
qed

subsection \<open>Conservation\<close>

lemma finalState_conservation_dem:
  "utilizationByCurve (shedRemaining cs (simulateMinutes machines cs qt dem n)) cid +
   shedByCurve (shedRemaining cs (simulateMinutes machines cs qt dem n)) cid =
     real (occurrences cid cs) * (\<Sum>m<n. dem cid ! m) +
     (real (occurrences cid cs) - 1) * queueSum (queuesByCurve (simulateMinutes machines cs qt dem n) cid)"
  using simulateMinutes_held[of machines cs qt dem n cid]
  by (simp add: shedRemaining_frame shedRemaining_shedByCurve held_def algebra_simps)

lemma fold_upd_notin:
  "k \<notin> g ` set xs \<Longrightarrow> fold (\<lambda>c m. m(g c := h c)) xs f k = f k"
  by (induction xs arbitrary: f) auto

lemma fold_upd_distinct:
  "distinct (map g xs) \<Longrightarrow> c \<in> set xs \<Longrightarrow> fold (\<lambda>c m. m(g c := h c)) xs f (g c) = h c"
proof (induction xs arbitrary: f)
  case Nil
  then show ?case by simp
next
  case (Cons x xs)
  show ?case
  proof (cases "c = x")
    case True
    have "g x \<notin> g ` set xs" using Cons.prems by simp
    from fold_upd_notin[OF this, of h "f(g x := h x)"] True show ?thesis
      by (simp only: fold_simps fun_upd_same)
  next
    case False
    with Cons.prems have "distinct (map g xs)" "c \<in> set xs" by auto
    from Cons.IH[OF this, of "f(g x := h x)"] show ?thesis
      by (simp only: fold_simps)
  qed
qed

lemma demandByCurve_distinct:
  "distinct (map id_curve cs) \<Longrightarrow> c \<in> set cs \<Longrightarrow> demandByCurve cs (id_curve c) = curveDemandArray c"
  unfolding demandByCurve_def by (rule fold_upd_distinct)

lemma length_curveDemandArray: "length (curveDemandArray c) = 1440"
  by (simp add: curveDemandArray_def generateLinearDemand_def generateGaussianDemand_def Let_def)

lemma sum_list_linear: "sum_list (generateLinearDemand v) = v"
  by (simp add: generateLinearDemand_def Let_def sum_list_replicate)

lemma sum_nth_curveDemandArray: "(\<Sum>m<1440. curveDemandArray c ! m) = sum_list (curveDemandArray c)"
  using length_curveDemandArray[of c] by (simp add: sum_list_sum_nth atLeast0LessThan)

lemma finalState_conservation:
  assumes "distinct (map id_curve cs)" "c \<in> set cs"
  shows "utilizationByCurve (finalState machines cs qt) (id_curve c) +
         shedByCurve (finalState machines cs qt) (id_curve c) = sum_list (curveDemandArray c)"
  using finalState_conservation_dem[of cs machines qt "demandByCurve cs" 1440 "id_curve c"]
  by (simp add: finalState_def occurrences_distinct[OF assms] demandByCurve_distinct[OF assms]
        sum_nth_curveDemandArray)

text \<open>The two aggregate totals are the sums of the counters of the curves.\<close>

lemma finite_curveIds [simp]: "finite (curveIds cs)"
  by (simp add: curveIds_def)

lemma curveIds_sort [simp]: "curveIds (sort_key f cs) = curveIds cs"
  by (simp add: curveIds_def)

lemma expireStep_totalShed:
  "totalShedDemand (expireStep m qt cs s) - sum (shedByCurve (expireStep m qt cs s)) (curveIds cs) =
     totalShedDemand s - sum (shedByCurve s) (curveIds cs)"
proof -
  let ?s0 = "s\<lparr>shedThisMinute := 0\<rparr>"
  have "sum (shedByCurve (expireStep m qt cs s)) (curveIds cs) =
      (\<Sum>cid\<in>curveIds cs. shedByCurve s cid + expiredAmount m qt ?s0 cid)"
    unfolding expireStep_def
    by (rule sum.cong) (simp_all add: fold_expireCurve_shedByCurve curveIds_def expiredAmount_def)
  also have "\<dots> = sum (shedByCurve s) (curveIds cs) + sum (expiredAmount m qt ?s0) (curveIds cs)"
    by (simp add: sum.distrib)
  finally show ?thesis
    using fold_expireCurve_shedThisMinute[of m qt cs ?s0]
    by (simp add: expireStep_def curveIds_def)
qed

lemma serveStep_usage:
  "actualUsage (serveStep machines m dem cs s) =
     sum (utilizationByCurve (serveStep machines m dem cs s)) (curveIds cs) -
     sum (utilizationByCurve s) (curveIds cs)"
proof -
  let ?s0 = "s\<lparr>availableCapacity := machines, actualUsage := 0\<rparr>"
  have "id_curve ` set (sort_key priority cs) \<subseteq> curveIds cs" by (simp add: curveIds_def)
  from fold_processCurve_usage_sum[OF finite_curveIds this, of m dem ?s0]
  show ?thesis by (simp add: serveStep_def)
qed

lemma serveStep_frame:
  "totalUtilization (serveStep machines m dem cs s) = totalUtilization s"
  "totalShedDemand (serveStep machines m dem cs s) = totalShedDemand s"
  "shedByCurve (serveStep machines m dem cs s) = shedByCurve s"
  "demandValues (serveStep machines m dem cs s) = demandValues s"
  "points (serveStep machines m dem cs s) = points s"
  "shedThisMinute (serveStep machines m dem cs s) = shedThisMinute s"
  by (simp_all add: serveStep_def fold_processCurve_frame)

lemma expireStep_frame:
  "utilizationByCurve (expireStep m qt cs s) = utilizationByCurve s"
  "usageValuesByCurve (expireStep m qt cs s) = usageValuesByCurve s"
  "totalUtilization (expireStep m qt cs s) = totalUtilization s"
  "demandValues (expireStep m qt cs s) = demandValues s"
  "points (expireStep m qt cs s) = points s"
  by (simp_all add: expireStep_def fold_expireCurve_frame)

lemma minuteStep_totalsAgree:
  assumes "totalsAgree cs s"
  shows "totalsAgree cs (minuteStep machines cs qt dem m s)"
proof -
  let ?e = "expireStep m qt cs s"
  let ?v = "serveStep machines m dem cs ?e"
  have u: "totalUtilization (minuteStep machines cs qt dem m s) =
      sum (utilizationByCurve (minuteStep machines cs qt dem m s)) (curveIds cs)"
    using assms serveStep_usage[of machines m dem cs ?e]
    by (simp add: minuteStep_def recordMinute_frame serveStep_frame expireStep_frame totalsAgree_def)
  have d: "totalShedDemand (minuteStep machines cs qt dem m s) =
      sum (shedByCurve (minuteStep machines cs qt dem m s)) (curveIds cs)"
    using assms expireStep_totalShed[of m qt cs s]
    by (simp add: minuteStep_def recordMinute_frame serveStep_frame totalsAgree_def)
  from u d show ?thesis by (simp add: totalsAgree_def)
qed

lemma simulateMinutes_totalsAgree: "totalsAgree cs (simulateMinutes machines cs qt dem n)"
proof (induction n)
  case 0
  show ?case by (simp add: totalsAgree_def initialState_def)
next
  case (Suc n)
  then show ?case by (simp add: simulateMinutes_Suc minuteStep_totalsAgree)
qed

lemma sum_list_curveIds:
  "distinct (map id_curve cs) \<Longrightarrow> (\<Sum>c\<leftarrow>cs. f (id_curve c)) = sum f (curveIds cs)"
  using sum_list_distinct_conv_sum_set[of "map id_curve cs" f]
  by (simp add: curveIds_def comp_def)

lemma shedRemaining_totalsAgree:
  assumes "distinct (map id_curve cs)" "totalsAgree cs s"
  shows "totalsAgree cs (shedRemaining cs s)"
proof -
  have "sum (shedByCurve (shedRemaining cs s)) (curveIds cs) =
      (\<Sum>cid\<in>curveIds cs. shedByCurve s cid + queueSum (queuesByCurve s cid))"
  proof (rule sum.cong[OF refl])
    fix cid assume "cid \<in> curveIds cs"
    then obtain c where "c \<in> set cs" "cid = id_curve c" by (auto simp: curveIds_def)
    then show "shedByCurve (shedRemaining cs s) cid = shedByCurve s cid + queueSum (queuesByCurve s cid)"
      using occurrences_distinct[OF assms(1), of c] by (simp add: shedRemaining_shedByCurve)
  qed
  also have "\<dots> = sum (shedByCurve s) (curveIds cs) + (\<Sum>c\<leftarrow>cs. queueSum (queuesByCurve s (id_curve c)))"
    by (simp add: sum.distrib sum_list_curveIds[OF assms(1), of "\<lambda>cid. queueSum (queuesByCurve s cid)"])
  finally show ?thesis
    using assms(2) by (simp add: totalsAgree_def shedRemaining_total shedRemaining_frame)
qed

lemma finalState_totalsAgree:
  "distinct (map id_curve cs) \<Longrightarrow> totalsAgree cs (finalState machines cs qt)"
  by (simp add: finalState_def shedRemaining_totalsAgree simulateMinutes_totalsAgree)

lemma finalState_conservation_total:
  assumes "distinct (map id_curve cs)"
  shows "totalUtilization (finalState machines cs qt) + totalShedDemand (finalState machines cs qt) =
         (\<Sum>c\<leftarrow>cs. sum_list (curveDemandArray c))"
proof -
  let ?f = "finalState machines cs qt"
  have "totalUtilization ?f + totalShedDemand ?f =
      (\<Sum>cid\<in>curveIds cs. utilizationByCurve ?f cid + shedByCurve ?f cid)"
    using finalState_totalsAgree[OF assms, of machines qt] by (simp add: totalsAgree_def sum.distrib)
  also have "\<dots> = (\<Sum>c\<leftarrow>cs. utilizationByCurve ?f (id_curve c) + shedByCurve ?f (id_curve c))"
    by (rule sum_list_curveIds[OF assms, of "\<lambda>cid. utilizationByCurve ?f cid + shedByCurve ?f cid", symmetric])
  also have "\<dots> = (\<Sum>c\<leftarrow>cs. sum_list (curveDemandArray c))"
    by (rule arg_cong[where f = sum_list], rule map_cong[OF refl])
       (simp add: finalState_conservation[OF assms])
  finally show ?thesis .
qed

subsection \<open>The Gaussian array is not normalised\<close>

lemma gaussian_le_1: "gaussian x mean stdDev \<le> 1"
  by (simp add: gaussian_def)

lemma gaussian_nonneg: "0 \<le> gaussian x mean stdDev"
  by (simp add: gaussian_def)

lemma sum_list_gaussian_le:
  assumes "0 \<le> v" "0 < w"
  shows "sum_list (generateGaussianDemand v p w) \<le> 1440 * (v / (w * 60 * sqrt (2 * pi)))"
proof -
  let ?k = "v / (w * 60 * sqrt (2 * pi))"
  have k: "0 \<le> ?k" using assms by simp
  have step: "?k * gaussian (real minute) (p * 60) (w * 60) \<le> ?k" for minute
    using mult_left_mono[OF gaussian_le_1 k, of "real minute" "p * 60" "w * 60"] by simp
  have "sum_list (generateGaussianDemand v p w) =
      (\<Sum>minute\<leftarrow>[0..<1440]. ?k * gaussian (real minute) (p * 60) (w * 60))"
    by (simp add: generateGaussianDemand_def Let_def)
  also have "\<dots> \<le> (\<Sum>minute\<leftarrow>[0..<1440]. ?k)"
    by (rule sum_list_mono) (rule step)
  finally show ?thesis by (simp add: sum_list_triv)
qed

lemma sqrt_2pi_ge_2: "2 \<le> sqrt (2 * pi)"
proof -
  have "4 \<le> 2 * pi" using pi_ge_two by simp
  then have "sqrt 4 \<le> sqrt (2 * pi)" by (simp only: real_sqrt_le_iff)
  then show ?thesis by simp
qed

lemma wide_gaussian_half:
  assumes "0 \<le> v"
  shows "sum_list (generateGaussianDemand v p 24) \<le> v / 2"
proof -
  have "sum_list (generateGaussianDemand v p 24) \<le> 1440 * (v / (24 * 60 * sqrt (2 * pi)))"
    by (rule sum_list_gaussian_le) (use assms in simp_all)
  also have "\<dots> = v / sqrt (2 * pi)" by simp
  also have "\<dots> \<le> v / 2"
    by (rule divide_left_mono) (use assms sqrt_2pi_ge_2 in simp_all)
  finally show ?thesis .
qed

lemma serveQueue_no_capacity: "\<not> 0 < a \<Longrightarrow> serveQueue q a u cu = (q, a, u, cu)"
  by (cases q) simp_all

text \<open>A curve that asks for at least what is left takes all of it.\<close>

lemma processCurve_saturated:
  assumes "availableCapacity s \<le> dem (id_curve c) ! m"
  shows "availableCapacity (processCurve m dem c s) = 0"
    and "actualUsage (processCurve m dem c s) = actualUsage s + availableCapacity s"
    and "utilizationByCurve (processCurve m dem c s) =
           (utilizationByCurve s)(id_curve c := utilizationByCurve s (id_curve c) + availableCapacity s)"
  using assms by (simp_all add: processCurve_def Let_def min_def serveQueue_no_capacity)

lemma fold_processCurve_starved:
  assumes "availableCapacity s = 0" "\<forall>c \<in> set cs. 0 \<le> dem (id_curve c) ! m"
  shows "availableCapacity (fold (processCurve m dem) cs s) = 0 \<and>
         actualUsage (fold (processCurve m dem) cs s) = actualUsage s \<and>
         utilizationByCurve (fold (processCurve m dem) cs s) = utilizationByCurve s"
  using assms
proof (induction cs arbitrary: s)
  case Nil
  then show ?case by simp
next
  case (Cons c cs)
  have le: "availableCapacity s \<le> dem (id_curve c) ! m" using Cons.prems by simp
  have "availableCapacity (processCurve m dem c s) = 0" by (rule processCurve_saturated(1)[where dem = dem, OF le])
  moreover have "\<forall>c \<in> set cs. 0 \<le> dem (id_curve c) ! m" using Cons.prems by simp
  ultimately have "availableCapacity (fold (processCurve m dem) cs (processCurve m dem c s)) = 0 \<and>
         actualUsage (fold (processCurve m dem) cs (processCurve m dem c s)) = actualUsage (processCurve m dem c s) \<and>
         utilizationByCurve (fold (processCurve m dem) cs (processCurve m dem c s)) = utilizationByCurve (processCurve m dem c s)"
    by (rule Cons.IH)
  then show ?case
    using processCurve_saturated(2,3)[where dem = dem, OF le] Cons.prems(1) by simp
qed

text \<open>When the first curve in priority order asks for at least the capacity, it is served the
  capacity and the others nothing.\<close>

lemma serveStep_first_takes_all:
  assumes "sort_key priority cs = c # rest"
    and "machines \<le> dem (id_curve c) ! m"
    and "\<forall>c' \<in> set rest. 0 \<le> dem (id_curve c') ! m"
  shows "utilizationByCurve (serveStep machines m dem cs s) =
           (utilizationByCurve s)(id_curve c := utilizationByCurve s (id_curve c) + machines)"
    and "actualUsage (serveStep machines m dem cs s) = machines"
    and "availableCapacity (serveStep machines m dem cs s) = 0"
proof -
  let ?s0 = "s\<lparr>availableCapacity := machines, actualUsage := 0\<rparr>"
  let ?s1 = "processCurve m dem c ?s0"
  have le: "availableCapacity ?s0 \<le> dem (id_curve c) ! m" using assms(2) by simp
  have z: "availableCapacity ?s1 = 0" by (rule processCurve_saturated(1)[where dem = dem, OF le])
  from fold_processCurve_starved[where dem = dem, OF z assms(3)]
    processCurve_saturated(2,3)[where dem = dem, OF le]
  show "utilizationByCurve (serveStep machines m dem cs s) =
           (utilizationByCurve s)(id_curve c := utilizationByCurve s (id_curve c) + machines)"
    and "actualUsage (serveStep machines m dem cs s) = machines"
    and "availableCapacity (serveStep machines m dem cs s) = 0"
    by (simp_all add: serveStep_def assms(1))
qed

lemma minuteStep_utilization:
  "utilizationByCurve (minuteStep machines cs qt dem m s) =
     utilizationByCurve (serveStep machines m dem cs (expireStep m qt cs s))"
  "totalUtilization (minuteStep machines cs qt dem m s) =
     totalUtilization s + actualUsage (serveStep machines m dem cs (expireStep m qt cs s))"
  by (simp_all add: minuteStep_def recordMinute_frame serveStep_frame expireStep_frame)

lemma simulateMinutes_first_takes_all:
  assumes "sort_key priority cs = c # rest"
    and "\<forall>m < n. machines \<le> dem (id_curve c) ! m"
    and "\<forall>m < n. \<forall>c' \<in> set rest. 0 \<le> dem (id_curve c') ! m"
  shows "utilizationByCurve (simulateMinutes machines cs qt dem n) =
           (\<lambda>_. 0)(id_curve c := real n * machines) \<and>
         totalUtilization (simulateMinutes machines cs qt dem n) = real n * machines"
  using assms(2,3)
proof (induction n)
  case 0
  then show ?case by (auto simp: initialState_def)
next
  case (Suc n)
  have ih: "utilizationByCurve (simulateMinutes machines cs qt dem n) =
           (\<lambda>_. 0)(id_curve c := real n * machines) \<and>
         totalUtilization (simulateMinutes machines cs qt dem n) = real n * machines"
    by (rule Suc.IH) (use Suc.prems in auto)
  have a: "machines \<le> dem (id_curve c) ! n" using Suc.prems by simp
  have b: "\<forall>c' \<in> set rest. 0 \<le> dem (id_curve c') ! n" using Suc.prems by simp
  show ?case
    using ih
    by (auto simp: simulateMinutes_Suc minuteStep_utilization expireStep_frame
          serveStep_first_takes_all[where dem = dem, OF assms(1) a b] algebra_simps)
qed

text \<open>The entries of the generated arrays.\<close>

lemma nth_linear: "m < 1440 \<Longrightarrow> generateLinearDemand v ! m = v / 1440"
  by (simp add: generateLinearDemand_def Let_def)

lemma nth_gaussian:
  "m < 1440 \<Longrightarrow> generateGaussianDemand v p w ! m =
     v / (w * 60 * sqrt (2 * pi)) * gaussian (real m) (p * 60) (w * 60)"
  by (simp add: generateGaussianDemand_def Let_def del: upt_Suc)

lemma curveDemandArray_nonneg:
  assumes "wellFormedCurve c" "m < 1440"
  shows "0 \<le> curveDemandArray c ! m"
proof (cases "type_curve c = ''linear''")
  case True
  then show ?thesis using assms by (simp add: curveDemandArray_def nth_linear wellFormedCurve_def)
next
  case False
  then have "0 \<le> totalDemand c / (curveWidth c * 60 * sqrt (2 * pi))"
    using assms by (simp add: wellFormedCurve_def)
  then have "0 \<le> totalDemand c / (curveWidth c * 60 * sqrt (2 * pi)) *
      gaussian (real m) (peakHour c * 60) (curveWidth c * 60)"
    by (rule mult_nonneg_nonneg) (rule gaussian_nonneg)
  then show ?thesis
    using False assms(2) by (simp only: curveDemandArray_def nth_gaussian if_False)
qed

lemma demandByCurve_nonneg:
  assumes "distinct (map id_curve cs)" "\<forall>c \<in> set cs. wellFormedCurve c" "m < 1440"
  shows "\<forall>c \<in> set cs. 0 \<le> demandByCurve cs (id_curve c) ! m"
  using assms by (simp add: demandByCurve_distinct curveDemandArray_nonneg)

text \<open>With no capacity nothing is served.\<close>

lemma simulateMinutes_no_capacity:
  assumes "\<forall>m < n. \<forall>c \<in> set cs. 0 \<le> dem (id_curve c) ! m"
  shows "utilizationByCurve (simulateMinutes 0 cs qt dem n) = (\<lambda>_. 0) \<and>
         totalUtilization (simulateMinutes 0 cs qt dem n) = 0"
  using assms
proof (induction n)
  case 0
  then show ?case by (simp add: initialState_def)
next
  case (Suc n)
  let ?e = "expireStep n qt cs (simulateMinutes 0 cs qt dem n)"
  let ?s0 = "?e\<lparr>availableCapacity := 0, actualUsage := 0\<rparr>"
  have ih: "utilizationByCurve (simulateMinutes 0 cs qt dem n) = (\<lambda>_. 0) \<and>
         totalUtilization (simulateMinutes 0 cs qt dem n) = 0"
    by (rule Suc.IH) (use Suc.prems in auto)
  have "\<forall>c \<in> set (sort_key priority cs). 0 \<le> dem (id_curve c) ! n" using Suc.prems by simp
  from fold_processCurve_starved[where dem = dem and s = ?s0, OF _ this]
  have "actualUsage (serveStep 0 n dem cs ?e) = 0 \<and>
        utilizationByCurve (serveStep 0 n dem cs ?e) = utilizationByCurve ?e"
    by (simp add: serveStep_def)
  then show ?case
    using ih by (simp add: simulateMinutes_Suc minuteStep_utilization expireStep_frame)
qed

text \<open>A curve that is first in priority order and never asks for more than the capacity is
  served at once, every minute.\<close>

lemma processCurve_fits:
  assumes "queuesByCurve s (id_curve c) = []" "0 \<le> dem (id_curve c) ! m"
    and "dem (id_curve c) ! m \<le> availableCapacity s"
  shows "queuesByCurve (processCurve m dem c s) (id_curve c) = []"
    and "utilizationByCurve (processCurve m dem c s) (id_curve c) =
           utilizationByCurve s (id_curve c) + dem (id_curve c) ! m"
  using assms by (simp_all add: processCurve_def Let_def min_def)

lemma fold_processCurve_other:
  "cid \<notin> id_curve ` set cs \<Longrightarrow>
     queuesByCurve (fold (processCurve m dem) cs s) cid = queuesByCurve s cid \<and>
     utilizationByCurve (fold (processCurve m dem) cs s) cid = utilizationByCurve s cid"
  by (induction cs arbitrary: s) (auto simp: processCurve_other)

lemma sort_key_strict_min_first:
  assumes "c \<in> set cs" "\<forall>c' \<in> set cs. c' \<noteq> c \<longrightarrow> f c < f c'"
  shows "\<exists>rest. sort_key f cs = c # rest"
proof -
  have "sort_key f cs \<noteq> []" using assms(1) by (metis empty_iff list.set(1) set_sort)
  then obtain h rest where hr: "sort_key f cs = h # rest" by (cases "sort_key f cs") auto
  have srt: "sorted (map f (h # rest))" using hr sorted_sort_key[of f cs] by simp
  have hin: "h \<in> set cs" using hr by (metis list.set_intros(1) set_sort)
  have cin: "c \<in> set (h # rest)" using hr assms(1) by (metis set_sort)
  have "h = c"
  proof (rule ccontr)
    assume ne: "h \<noteq> c"
    then have "c \<in> set rest" using cin by auto
    then have "f h \<le> f c" using srt by auto
    moreover have "f c < f h" using assms(2) hin ne by auto
    ultimately show False by simp
  qed
  with hr show ?thesis by auto
qed

lemma simulateMinutes_first_fits:
  assumes srt: "sort_key priority cs = c # rest"
    and dist: "distinct (map id_curve cs)"
    and fits: "\<forall>m < n. 0 \<le> dem (id_curve c) ! m \<and> dem (id_curve c) ! m \<le> machines"
  shows "queuesByCurve (simulateMinutes machines cs qt dem n) (id_curve c) = [] \<and>
         utilizationByCurve (simulateMinutes machines cs qt dem n) (id_curve c) =
           (\<Sum>m<n. dem (id_curve c) ! m)"
  using fits
proof (induction n)
  case 0
  then show ?case by (simp add: initialState_def)
next
  case (Suc n)
  let ?s = "simulateMinutes machines cs qt dem n"
  let ?e = "expireStep n qt cs ?s"
  let ?sa = "?e\<lparr>availableCapacity := machines, actualUsage := 0\<rparr>"
  let ?sb = "processCurve n dem c ?sa"
  have ih: "queuesByCurve ?s (id_curve c) = [] \<and>
         utilizationByCurve ?s (id_curve c) = (\<Sum>m<n. dem (id_curve c) ! m)"
    by (rule Suc.IH) (use Suc.prems in auto)
  have "distinct (map id_curve (sort_key priority cs))"
    using dist by (simp add: distinct_map)
  then have notin: "id_curve c \<notin> id_curve ` set rest" by (simp add: srt)
  have q0: "queuesByCurve ?sa (id_curve c) = []"
    using ih by (simp add: expireStep_def fold_expireCurve_queues)
  have d: "0 \<le> dem (id_curve c) ! n" "dem (id_curve c) ! n \<le> availableCapacity ?sa"
    using Suc.prems by simp_all
  have u0: "utilizationByCurve ?sa (id_curve c) = utilizationByCurve ?s (id_curve c)"
    by (simp add: expireStep_frame)
  have "serveStep machines n dem cs ?e = fold (processCurve n dem) rest ?sb"
    by (simp add: serveStep_def srt)
  then have "queuesByCurve (serveStep machines n dem cs ?e) (id_curve c) = [] \<and>
      utilizationByCurve (serveStep machines n dem cs ?e) (id_curve c) =
        utilizationByCurve ?s (id_curve c) + dem (id_curve c) ! n"
    using fold_processCurve_other[OF notin, of n dem ?sb]
      processCurve_fits[where dem = dem, OF q0 d] u0 by simp
  then show ?case
    using ih by (simp add: simulateMinutes_Suc minuteStep_def recordMinute_frame)
qed

lemma serveStep_capacity:
  "availableCapacity (serveStep machines m dem cs s) + actualUsage (serveStep machines m dem cs s) = machines"
  using fold_processCurve_capacity[of m dem "sort_key priority cs" "s\<lparr>availableCapacity := machines, actualUsage := 0\<rparr>"]
  by (simp add: serveStep_def)

lemma minuteStep_usages:
  "map usage_dv (demandValues (minuteStep machines cs qt dem m s)) =
     map usage_dv (demandValues s) @ [actualUsage (serveStep machines m dem cs (expireStep m qt cs s))]"
  by (simp add: minuteStep_def recordMinute_def Let_def serveStep_frame expireStep_frame)

lemma minuteStep_points_length:
  "length (points (minuteStep machines cs qt dem m s)) =
     length (points s) + (if m mod 5 = 0 then 1 else 0)"
  by (simp add: minuteStep_def recordMinute_def Let_def serveStep_frame expireStep_frame)

lemma simulateMinutes_points_length:
  "length (points (simulateMinutes machines cs qt dem n)) = (n + 4) div 5"
proof (induction n)
  case 0
  show ?case by (simp add: initialState_def)
next
  case (Suc n)
  have "(Suc n + 4) div 5 = (n + 4) div 5 + (if n mod 5 = 0 then 1 else 0)"
    by presburger
  with Suc show ?case by (simp add: simulateMinutes_Suc minuteStep_points_length)
qed

lemma shedRemaining_points: "points (shedRemaining cs s) = points s"
  unfolding shedRemaining_def by (induction cs arbitrary: s) (simp_all add: fold_shedItem)

lemma two_minutes_gen:
  assumes "dem ''p1'' ! 0 = 150" "dem ''p1'' ! Suc 0 = 150"
  shows "queuesByCurve (simulateMinutes 100 [p1Curve] 30 dem (Suc (Suc 0))) ''p1'' =
     [\<lparr>arrivalTime = 0, demand = 50, curveId = ''p1'', priority_item = 1\<rparr>,
      \<lparr>arrivalTime = 1, demand = 50, curveId = ''p1'', priority_item = 1\<rparr>] \<and>
    utilizationByCurve (simulateMinutes 100 [p1Curve] 30 dem (Suc (Suc 0))) ''p1'' = 200 \<and>
    queuesByCurve (simulateMinutes 100 [p1Curve] 30 dem (Suc 0)) ''p1'' =
     [\<lparr>arrivalTime = 0, demand = 50, curveId = ''p1'', priority_item = 1\<rparr>]"
  unfolding simulateMinutes_Suc simulateMinutes_0
  by (simp add: minuteStep_def recordMinute_def serveStep_def expireStep_def expireCurve_def
        processCurve_def initialState_def Let_def assms p1Curve_def timedOut_def queuedTotal_def minuteDemand_def)

lemma finalState_first_takes_all:
  assumes dist: "distinct (map id_curve cs)"
    and srt: "sort_key priority cs = c # rest"
    and big: "\<forall>m < 1440. machines \<le> curveDemandArray c ! m"
    and wf: "\<forall>c' \<in> set rest. wellFormedCurve c'"
  shows "utilizationByCurve (finalState machines cs qt) = (\<lambda>_. 0)(id_curve c := 1440 * machines) \<and>
         totalUtilization (finalState machines cs qt) = 1440 * machines"
proof -
  have sets: "set cs = set (c # rest)" using srt by (metis set_sort)
  have a: "\<forall>m < 1440. machines \<le> demandByCurve cs (id_curve c) ! m"
    using big sets by (simp add: demandByCurve_distinct[OF dist])
  have b: "\<forall>m < 1440. \<forall>c' \<in> set rest. 0 \<le> demandByCurve cs (id_curve c') ! m"
    using wf sets by (simp add: demandByCurve_distinct[OF dist] curveDemandArray_nonneg)
  from simulateMinutes_first_takes_all[where dem = "demandByCurve cs", OF srt a b, of qt]
  show ?thesis by (simp add: finalState_def shedRemaining_frame)
qed

lemma finalState_shed:
  assumes "distinct (map id_curve cs)" "c \<in> set cs"
  shows "shedByCurve (finalState machines cs qt) (id_curve c) =
           sum_list (curveDemandArray c) - utilizationByCurve (finalState machines cs qt) (id_curve c)"
  using finalState_conservation[OF assms, of machines qt] by simp

lemma sum_list_curveDemandArray_linear:
  "type_curve c = ''linear'' \<Longrightarrow> sum_list (curveDemandArray c) = totalDemand c"
  by (simp add: curveDemandArray_def sum_list_linear)

lemma curveDemandArray_linear_nth:
  "type_curve c = ''linear'' \<Longrightarrow> m < 1440 \<Longrightarrow> curveDemandArray c ! m = totalDemand c / 1440"
  by (simp add: curveDemandArray_def nth_linear)

lemma finalState_no_capacity:
  assumes dist: "distinct (map id_curve cs)" and wf: "\<forall>c \<in> set cs. wellFormedCurve c"
  shows "utilizationByCurve (finalState 0 cs qt) = (\<lambda>_. 0) \<and> totalUtilization (finalState 0 cs qt) = 0"
proof -
  have "\<forall>m < 1440. \<forall>c \<in> set cs. 0 \<le> demandByCurve cs (id_curve c) ! m"
    using demandByCurve_nonneg[OF dist wf] by simp
  from simulateMinutes_no_capacity[where dem = "demandByCurve cs", OF this, of qt]
  show ?thesis by (simp add: finalState_def shedRemaining_frame)
qed

lemma finalState_first_fits:
  assumes dist: "distinct (map id_curve cs)" and cin: "c \<in> set cs"
    and first: "\<forall>c' \<in> set cs. c' \<noteq> c \<longrightarrow> priority c < priority c'"
    and fits: "\<forall>m < 1440. 0 \<le> curveDemandArray c ! m \<and> curveDemandArray c ! m \<le> machines"
  shows "utilizationByCurve (finalState machines cs qt) (id_curve c) = sum_list (curveDemandArray c)"
proof -
  obtain rest where srt: "sort_key priority cs = c # rest"
    using sort_key_strict_min_first[OF cin first] by auto
  have "\<forall>m < 1440. 0 \<le> demandByCurve cs (id_curve c) ! m \<and> demandByCurve cs (id_curve c) ! m \<le> machines"
    using fits by (simp add: demandByCurve_distinct[OF dist cin])
  from simulateMinutes_first_fits[where dem = "demandByCurve cs", OF srt dist this, of qt]
  show ?thesis
    by (simp add: finalState_def shedRemaining_frame demandByCurve_distinct[OF dist cin]
          sum_nth_curveDemandArray)
qed

text \<open>The capacity within a minute.\<close>

lemma fold_processCurve_within_capacity:
  assumes "0 \<le> machines" "positiveQueues s"
  shows "0 \<le> availableCapacity (fold (processCurve m dem) cs (s\<lparr>availableCapacity := machines, actualUsage := 0\<rparr>)) \<and>
         actualUsage (fold (processCurve m dem) cs (s\<lparr>availableCapacity := machines, actualUsage := 0\<rparr>)) \<le> machines \<and>
         positiveQueues (fold (processCurve m dem) cs (s\<lparr>availableCapacity := machines, actualUsage := 0\<rparr>))"
proof -
  let ?sa = "s\<lparr>availableCapacity := machines, actualUsage := 0\<rparr>"
  have a: "0 \<le> availableCapacity (fold (processCurve m dem) cs ?sa)"
    by (rule fold_processCurve_avail_nonneg) (simp add: assms)
  have "availableCapacity (fold (processCurve m dem) cs ?sa) + actualUsage (fold (processCurve m dem) cs ?sa) = machines"
    using fold_processCurve_capacity[of m dem cs ?sa] by simp
  with a have b: "actualUsage (fold (processCurve m dem) cs ?sa) \<le> machines" by simp
  have "positiveQueues ?sa" using assms(2) by (simp add: positiveQueues_def)
  then have c: "positiveQueues (fold (processCurve m dem) cs ?sa)" by (rule fold_processCurve_positive)
  from a b c show ?thesis by simp
qed

lemma simulateMinutes_usages_bounded:
  assumes "0 \<le> machines"
  shows "\<forall>u \<in> set (map usage_dv (demandValues (simulateMinutes machines cs qt dem n))). u \<le> machines"
proof (induction n)
  case 0
  show ?case by (simp add: initialState_def)
next
  case (Suc n)
  let ?e = "expireStep n qt cs (simulateMinutes machines cs qt dem n)"
  have "positiveQueues ?e" by (simp add: expireStep_positive simulateMinutes_positive)
  from fold_processCurve_within_capacity[OF assms this, of n dem "sort_key priority cs"]
  have "actualUsage (serveStep machines n dem cs ?e) \<le> machines" by (simp add: serveStep_def)
  with Suc show ?case by (simp add: simulateMinutes_Suc minuteStep_usages)
qed

text \<open>The curve with a spread of 24 hours generates at most half of its volume.\<close>

lemma wideCurve_total:
  "utilizationByCurve (finalState machines [wideCurve] qt) ''curve-1'' +
   shedByCurve (finalState machines [wideCurve] qt) ''curve-1'' \<le> 50000"
proof -
  have "utilizationByCurve (finalState machines [wideCurve] qt) (id_curve wideCurve) +
      shedByCurve (finalState machines [wideCurve] qt) (id_curve wideCurve) =
      sum_list (curveDemandArray wideCurve)"
    by (rule finalState_conservation) simp_all
  moreover have "sum_list (curveDemandArray wideCurve) \<le> 100000 / 2"
    using wide_gaussian_half[of 100000 12] by (simp add: curveDemandArray_def wideCurve_def)
  ultimately show ?thesis by (simp add: wideCurve_def)
qed

subsection \<open>Two runs that differ in the timeout\<close>

text \<open>Each move on a tally maps \<open>phi\<close> and \<open>gam\<close> of the old tally to those of the new one by
  sums, minima and maxima, so a tally that is dominated stays dominated.\<close>

lemma sum_upd_in:
  fixes f :: "'a \<Rightarrow> real"
  assumes "finite A" "a \<in> A"
  shows "sum (f(a := v)) A = sum f (A - {a}) + v"
proof -
  have "sum (f(a := v)) A = (f(a := v)) a + sum (f(a := v)) (A - {a})"
    using assms by (simp add: sum.remove)
  also have "sum (f(a := v)) (A - {a}) = sum f (A - {a})"
    by (rule sum.cong) auto
  finally show ?thesis by simp
qed

lemma sum_upd_notin:
  fixes f :: "'a \<Rightarrow> real"
  shows "a \<notin> A \<Longrightarrow> sum (f(a := v)) A = sum f A"
  by (rule sum.cong) auto

lemma serveSlot_phi:
  assumes "finite Y"
  shows "phi Y (serveSlot i x) = (if i \<in> Y then phi Y x else min (phi (insert i Y) x) (gam Y x))"
proof (cases "i \<in> Y")
  case True
  have "sum (remaining x) Y = remaining x i + sum (remaining x) (Y - {i})"
    using assms True by (simp add: sum.remove)
  then show ?thesis
    using True sum_upd_in[OF assms True, of "remaining x"]
    by (simp add: phi_def serveSlot_def Let_def del: fun_upd_apply)
next
  case False
  then show ?thesis
    using assms by (simp add: phi_def gam_def serveSlot_def Let_def sum_upd_notin min_def del: fun_upd_apply)
qed

lemma serveSlot_gam:
  assumes "finite Y"
  shows "gam Y (serveSlot i x) = (if i \<in> Y then max (gam (Y - {i}) x) (phi Y x) else gam Y x)"
proof (cases "i \<in> Y")
  case True
  have "sum (remaining x) Y = remaining x i + sum (remaining x) (Y - {i})"
    using assms True by (simp add: sum.remove)
  then show ?thesis
    using True sum_upd_in[OF assms True, of "remaining x"]
    by (simp add: phi_def gam_def serveSlot_def Let_def min_def max_def del: fun_upd_apply)
next
  case False
  then show ?thesis
    by (simp add: gam_def serveSlot_def Let_def sum_upd_notin del: fun_upd_apply)
qed

lemma serveSlot_dominated:
  assumes "dominated x y"
  shows "dominated (serveSlot i x) (serveSlot i y)"
  unfolding dominated_def
proof (intro allI impI)
  fix Y :: "'a set" assume fin: "finite Y"
  have a: "phi Y x \<le> phi Y y" "gam Y x \<le> gam Y y"
    using assms fin by (simp_all add: dominated_def)
  have b: "phi (insert i Y) x \<le> phi (insert i Y) y"
    using assms fin by (simp add: dominated_def)
  have c: "gam (Y - {i}) x \<le> gam (Y - {i}) y"
    using assms fin by (simp add: dominated_def)
  show "phi Y (serveSlot i x) \<le> phi Y (serveSlot i y) \<and> gam Y (serveSlot i x) \<le> gam Y (serveSlot i y)"
    using a b c by (auto simp: serveSlot_phi[OF fin] serveSlot_gam[OF fin] min_def max_def)
qed

lemma arrive_phi:
  assumes "finite Y"
  shows "phi Y (arrive i d x) = phi Y x + (if i \<in> Y then d else 0)"
    and "gam Y (arrive i d x) = gam Y x + (if i \<in> Y then d else 0)"
proof -
  have "sum ((remaining x)(i := remaining x i + d)) Y = sum (remaining x) Y + (if i \<in> Y then d else 0)"
  proof (cases "i \<in> Y")
    case True
    have "sum (remaining x) Y = remaining x i + sum (remaining x) (Y - {i})"
      using assms True by (simp add: sum.remove)
    then show ?thesis using True sum_upd_in[OF assms True, of "remaining x"]
      by (simp del: fun_upd_apply)
  next
    case False
    then show ?thesis by (simp add: sum_upd_notin del: fun_upd_apply)
  qed
  then show "phi Y (arrive i d x) = phi Y x + (if i \<in> Y then d else 0)"
    and "gam Y (arrive i d x) = gam Y x + (if i \<in> Y then d else 0)"
    by (simp_all add: phi_def gam_def arrive_def)
qed

lemma arrive_dominated:
  "dominated x y \<Longrightarrow> dominated (arrive i d x) (arrive i d y)"
  by (simp add: dominated_def arrive_phi)

lemma fold_serveSlot_dominated:
  "dominated x y \<Longrightarrow> dominated (fold serveSlot is x) (fold serveSlot is y)"
  by (induction "is" arbitrary: x y) (simp_all add: serveSlot_dominated)

text \<open>Expiry with a longer timeout removes less.\<close>

lemma expireSlots_sum:
  "finite Y \<Longrightarrow> sum (remaining (expireSlots E x)) Y = sum (remaining x) (Y - E)"
proof -
  assume fin: "finite Y"
  have "sum (remaining (expireSlots E x)) Y = sum (\<lambda>i. if i \<in> E then 0 else remaining x i) Y"
    by (simp add: expireSlots_def)
  also have "\<dots> = sum (remaining x) (Y - E)"
    using fin by (simp add: sum.If_cases Diff_eq Int_commute)
  finally show ?thesis .
qed

lemma expireSlots_phi_mono:
  assumes dom: "\<forall>Y. finite Y \<longrightarrow> phi Y x \<le> phi Y y"
    and sub: "E2 \<subseteq> E1" and nonneg: "\<forall>i. 0 \<le> remaining y i" and fin: "finite Y"
  shows "phi Y (expireSlots E1 x) \<le> phi Y (expireSlots E2 y)"
proof -
  have "phi Y (expireSlots E1 x) = phi (Y - E1) x"
    by (simp add: phi_def expireSlots_sum[OF fin]) (simp add: expireSlots_def)
  also have "\<dots> \<le> phi (Y - E1) y" using dom fin by simp
  also have "\<dots> \<le> phi (Y - E2) y"
  proof -
    have "sum (remaining y) (Y - E1) \<le> sum (remaining y) (Y - E2)"
      by (rule sum_mono2) (use fin sub nonneg in auto)
    then show ?thesis by (simp add: phi_def)
  qed
  also have "\<dots> = phi Y (expireSlots E2 y)"
    by (simp add: phi_def expireSlots_sum[OF fin]) (simp add: expireSlots_def)
  finally show ?thesis .
qed

lemma slotRem_Nil [simp]: "slotRem [] a = 0"
  by (simp add: slotRem_def)

lemma slotRem_Cons:
  "slotRem (item # q) a = (if arrivalTime item = a then demand item else 0) + slotRem q a"
  by (simp add: slotRem_def)

lemma slotRem_absent: "a \<notin> arrivalTime ` set q \<Longrightarrow> slotRem q a = 0"
  by (induction q) (auto simp: slotRem_Cons)

lemma slotRem_cong_arrival:
  "map arrivalTime q' = map arrivalTime q \<Longrightarrow> a \<notin> arrivalTime ` set q \<Longrightarrow> slotRem q' a = 0"
proof -
  assume m: "map arrivalTime q' = map arrivalTime q" and n: "a \<notin> arrivalTime ` set q"
  have "arrivalTime ` set q' = arrivalTime ` set q"
    using m by (metis set_map)
  with n show ?thesis by (simp add: slotRem_absent)
qed

lemma slotRem_nonneg: "\<forall>item \<in> set q. 0 \<le> demand item \<Longrightarrow> 0 \<le> slotRem q a"
  by (induction q) (auto simp: slotRem_Cons)

lemma slotRem_append: "slotRem (xs @ ys) a = slotRem xs a + slotRem ys a"
  by (simp add: slotRem_def)

lemma slotRem_filter_pos:
  "\<forall>item \<in> set q. 0 \<le> demand item \<Longrightarrow> slotRem (filter (\<lambda>item. 0 < demand item) q) a = slotRem q a"
  by (induction q) (auto simp: slotRem_Cons)

lemma slotRem_filter_arrival:
  "slotRem (filter (\<lambda>item. P (arrivalTime item)) q) a = (if P a then slotRem q a else 0)"
  by (induction q) (auto simp: slotRem_Cons)

text \<open>Slots whose service changes nothing.\<close>

lemma serveSlot_idle:
  "min (remaining x i) (capacityLeft x) = 0 \<Longrightarrow> serveSlot i x = x"
  by (simp add: serveSlot_def Let_def)

lemma fold_serveSlot_zero:
  "\<forall>i \<in> set is. remaining x i = 0 \<Longrightarrow> 0 \<le> capacityLeft x \<Longrightarrow> fold serveSlot is x = x"
proof (induction "is")
  case Nil
  then show ?case by simp
next
  case (Cons i "is")
  have "serveSlot i x = x" by (rule serveSlot_idle) (use Cons.prems in simp)
  with Cons show ?case by simp
qed

lemma fold_serveSlot_no_capacity:
  "\<forall>i \<in> set is. 0 \<le> remaining x i \<Longrightarrow> capacityLeft x = 0 \<Longrightarrow> fold serveSlot is x = x"
proof (induction "is")
  case Nil
  then show ?case by simp
next
  case (Cons i "is")
  have "serveSlot i x = x" by (rule serveSlot_idle) (use Cons.prems in simp)
  with Cons show ?case by simp
qed

lemma serveSlot_fields:
  "servedSoFar (serveSlot i x) = servedSoFar x + min (remaining x i) (capacityLeft x)"
  "capacityLeft (serveSlot i x) = capacityLeft x - min (remaining x i) (capacityLeft x)"
  "remaining (serveSlot i x) = (remaining x)(i := remaining x i - min (remaining x i) (capacityLeft x))"
  by (simp_all add: serveSlot_def Let_def)

text \<open>The loop over a sorted queue is the service of the slots of its arrival minutes in
  ascending order.\<close>

lemma serveQueue_refines:
  fixes cid :: string
  assumes "sorted_wrt (<) (map arrivalTime q)"
    and "\<forall>item \<in> set q. lo \<le> arrivalTime item \<and> arrivalTime item < hi \<and> 0 < demand item"
    and "0 \<le> capacityLeft x"
    and "\<forall>a. lo \<le> a \<and> a < hi \<longrightarrow> remaining x (cid, a) = slotRem q a"
    and "serveQueue q (capacityLeft x) u cu = (q', v', u', cu')"
  shows "fold serveSlot (map (Pair cid) [lo..<hi]) x =
           x\<lparr> servedSoFar := servedSoFar x + (capacityLeft x - v'), capacityLeft := v',
              remaining := (\<lambda>i. if fst i = cid \<and> lo \<le> snd i \<and> snd i < hi
                                 then slotRem q' (snd i) else remaining x i) \<rparr>"
  using assms
proof (induction q arbitrary: lo x u cu q' v' u' cu')
  case Nil
  have res: "q' = []" "v' = capacityLeft x" using Nil.prems(5) by simp_all
  have z: "\<forall>i \<in> set (map (Pair cid) [lo..<hi]). remaining x i = 0"
    using Nil.prems(4) by auto
  have f: "fold serveSlot (map (Pair cid) [lo..<hi]) x = x"
    by (rule fold_serveSlot_zero[OF z Nil.prems(3)])
  have e: "(\<lambda>i. if fst i = cid \<and> lo \<le> snd i \<and> snd i < hi then slotRem q' (snd i) else remaining x i) = remaining x"
  proof (rule ext)
    fix i :: "string \<times> nat"
    show "(if fst i = cid \<and> lo \<le> snd i \<and> snd i < hi then slotRem q' (snd i) else remaining x i) = remaining x i"
      using Nil.prems(4) res by (cases i) auto
  qed
  show ?case unfolding f e res(2) by simp
next
  case (Cons item rest)
  let ?a = "arrivalTime item"
  let ?v = "capacityLeft x"
  have later: "\<forall>r \<in> set rest. ?a < arrivalTime r" using Cons.prems(1) by auto
  have range: "lo \<le> ?a" "?a < hi" "0 < demand item" using Cons.prems(2) by auto
  have rest0: "slotRem rest ?a = 0"
    by (rule slotRem_absent) (use later in auto)
  show ?case
  proof (cases "0 < ?v")
    case False
    then have v0: "?v = 0" using Cons.prems(3) by simp
    have unchanged: "q' = item # rest" "v' = ?v"
      using Cons.prems(5) False by simp_all
    have nn: "\<forall>i \<in> set (map (Pair cid) [lo..<hi]). 0 \<le> remaining x i"
    proof
      fix i assume "i \<in> set (map (Pair cid) [lo..<hi])"
      then obtain a where i: "i = (cid, a)" "lo \<le> a" "a < hi" by auto
      have "0 \<le> slotRem (item # rest) a"
        by (rule slotRem_nonneg) (use Cons.prems(2) in \<open>auto simp: less_imp_le\<close>)
      then show "0 \<le> remaining x i" using i Cons.prems(4) by simp
    qed
    have f: "fold serveSlot (map (Pair cid) [lo..<hi]) x = x"
      by (rule fold_serveSlot_no_capacity[OF nn v0])
    have e: "(\<lambda>i. if fst i = cid \<and> lo \<le> snd i \<and> snd i < hi then slotRem q' (snd i) else remaining x i) = remaining x"
    proof (rule ext)
      fix i :: "string \<times> nat"
      show "(if fst i = cid \<and> lo \<le> snd i \<and> snd i < hi then slotRem q' (snd i) else remaining x i) = remaining x i"
        using Cons.prems(4) unchanged(1) by (cases i) auto
    qed
    show ?thesis unfolding f e unchanged(2) by simp
  next
    case True
    let ?s = "min (demand item) ?v"
    let ?x1 = "serveSlot (cid, ?a) x"
    obtain r1 a1 u1 c1 where rec: "serveQueue rest (?v - ?s) (u + ?s) (cu + ?s) = (r1, a1, u1, c1)"
      by (metis prod_cases4)
    have res: "q' = item\<lparr>demand := demand item - ?s\<rparr> # r1" "v' = a1"
      using Cons.prems(5) True rec by (simp_all add: Let_def)
    have arr: "map arrivalTime r1 = map arrivalTime rest"
      using serveQueue_arrival[of rest "?v - ?s" "u + ?s" "cu + ?s"] rec by simp
    have r1_0: "slotRem r1 a = 0" if "a \<le> ?a" for a
      by (rule slotRem_cong_arrival[OF arr]) (use later that in auto)
    have rest_0: "slotRem rest a = 0" if "a \<le> ?a" for a
      by (rule slotRem_absent) (use later that in auto)
    have here: "remaining x (cid, ?a) = demand item"
      using Cons.prems(4) range by (simp add: slotRem_Cons rest0)
    have split: "[lo..<hi] = [lo..<?a] @ ?a # [Suc ?a..<hi]"
      using range by (metis less_imp_le_nat upt_add_eq_append upt_conv_Cons le_iff_add)
    have before: "\<forall>i \<in> set (map (Pair cid) [lo..<?a]). remaining x i = 0"
    proof
      fix i assume "i \<in> set (map (Pair cid) [lo..<?a])"
      then obtain a where i: "i = (cid, a)" "lo \<le> a" "a < ?a" by auto
      then have "remaining x i = slotRem (item # rest) a" using Cons.prems(4) range by simp
      also have "\<dots> = 0" using i rest_0[of a] by (simp add: slotRem_Cons)
      finally show "remaining x i = 0" .
    qed
    have f1: "fold serveSlot (map (Pair cid) [lo..<?a]) x = x"
      by (rule fold_serveSlot_zero[OF before Cons.prems(3)])
    have x1: "servedSoFar ?x1 = servedSoFar x + ?s" "capacityLeft ?x1 = ?v - ?s"
      "remaining ?x1 = (remaining x)((cid, ?a) := demand item - ?s)"
      by (simp_all add: serveSlot_fields here)
    have ih: "fold serveSlot (map (Pair cid) [Suc ?a..<hi]) ?x1 =
           ?x1\<lparr> servedSoFar := servedSoFar ?x1 + (capacityLeft ?x1 - a1), capacityLeft := a1,
              remaining := (\<lambda>i. if fst i = cid \<and> Suc ?a \<le> snd i \<and> snd i < hi
                                 then slotRem r1 (snd i) else remaining ?x1 i) \<rparr>"
    proof (rule Cons.IH[where u = "u + ?s" and cu = "cu + ?s" and u' = u1 and cu' = c1])
      show "sorted_wrt (<) (map arrivalTime rest)" using Cons.prems(1) by simp
      show "\<forall>r \<in> set rest. Suc ?a \<le> arrivalTime r \<and> arrivalTime r < hi \<and> 0 < demand r"
        using Cons.prems(2) later by auto
      show "0 \<le> capacityLeft ?x1" using x1(2) Cons.prems(3) by simp
      show "\<forall>a. Suc ?a \<le> a \<and> a < hi \<longrightarrow> remaining ?x1 (cid, a) = slotRem rest a"
        using Cons.prems(4) range by (auto simp: x1(3) slotRem_Cons)
      show "serveQueue rest (capacityLeft ?x1) (u + ?s) (cu + ?s) = (r1, a1, u1, c1)"
        using rec x1(2) by simp
    qed
    have "fold serveSlot (map (Pair cid) [lo..<hi]) x =
        fold serveSlot (map (Pair cid) [Suc ?a..<hi]) ?x1"
      by (simp add: split f1 del: upt_Suc)
    also have "\<dots> = x\<lparr> servedSoFar := servedSoFar x + (?v - v'), capacityLeft := v',
              remaining := (\<lambda>i. if fst i = cid \<and> lo \<le> snd i \<and> snd i < hi
                                 then slotRem q' (snd i) else remaining x i) \<rparr>"
    proof -
      have rem_eq: "(\<lambda>i. if fst i = cid \<and> Suc ?a \<le> snd i \<and> snd i < hi
                                 then slotRem r1 (snd i) else remaining ?x1 i) =
          (\<lambda>i. if fst i = cid \<and> lo \<le> snd i \<and> snd i < hi
                                 then slotRem q' (snd i) else remaining x i)"
      proof (rule ext)
        fix i :: "string \<times> nat"
        obtain c a where i: "i = (c, a)" by (cases i)
        show "(if fst i = cid \<and> Suc ?a \<le> snd i \<and> snd i < hi
                                 then slotRem r1 (snd i) else remaining ?x1 i) =
          (if fst i = cid \<and> lo \<le> snd i \<and> snd i < hi
                                 then slotRem q' (snd i) else remaining x i)"
        proof (cases "c = cid \<and> lo \<le> a \<and> a < hi")
          case False
          then show ?thesis using i range by (auto simp: x1(3))
        next
          case inr: True
          consider "a < ?a" | "a = ?a" | "?a < a" by linarith
          then show ?thesis
          proof cases
            case 1
            then have "remaining x (cid, a) = 0"
              using before inr by auto
            then show ?thesis
              using 1 i inr r1_0[of a] by (simp add: x1(3) res slotRem_Cons)
          next
            case 2
            then show ?thesis
              using i inr r1_0[of a] by (simp add: x1(3) res slotRem_Cons)
          next
            case 3
            then show ?thesis
              using i inr by (simp add: res slotRem_Cons)
          qed
        qed
      qed
      show ?thesis
        unfolding ih rem_eq using x1(1,2) res(2) by simp
    qed
    finally show ?thesis .
  qed
qed

lemma goodQueue_sorted: "goodQueue m q \<Longrightarrow> sort_key arrivalTime q = q"
proof -
  assume "goodQueue m q"
  then have "sorted_wrt (<) (map arrivalTime q)" by (simp add: goodQueue_def)
  then have "sorted (map arrivalTime q)" by (rule strict_sorted_imp_sorted)
  then show ?thesis by (rule sort_key_id_if_sorted)
qed

lemma goodQueue_absent: "goodQueue m q \<Longrightarrow> m \<le> a \<Longrightarrow> slotRem q a = 0"
  by (rule slotRem_absent) (auto simp: goodQueue_def)

lemma goodQueue_push:
  assumes "goodQueue m q" "0 < d"
  shows "goodQueue (Suc m) (q @ [\<lparr> arrivalTime = m, demand = d, curveId = cid, priority_item = p \<rparr>])"
  using assms by (auto simp: goodQueue_def sorted_wrt_append less_Suc_eq)

lemma goodQueue_filter: "goodQueue m q \<Longrightarrow> goodQueue m (filter P q)"
  by (auto simp: goodQueue_def sorted_wrt_map sorted_wrt_filter)

lemma goodQueue_Suc: "goodQueue m q \<Longrightarrow> goodQueue (Suc m) q"
  by (auto simp: goodQueue_def less_Suc_eq)

lemma goodQueue_served:
  assumes "goodQueue m q"
  shows "goodQueue m (filter (\<lambda>item. 0 < demand item) (fst (serveQueue q a u cu)))"
proof -
  let ?q' = "fst (serveQueue q a u cu)"
  have arr: "map arrivalTime ?q' = map arrivalTime q" by (rule serveQueue_arrival)
  have s: "sorted_wrt (<) (map arrivalTime ?q')" using assms arr by (simp add: goodQueue_def)
  have img: "arrivalTime ` set ?q' = arrivalTime ` set q" using arr by (metis set_map)
  have b: "\<forall>item \<in> set ?q'. arrivalTime item < m"
  proof
    fix item assume "item \<in> set ?q'"
    then have "arrivalTime item \<in> arrivalTime ` set q" using img by blast
    then obtain old where "old \<in> set q" "arrivalTime item = arrivalTime old" by auto
    then show "arrivalTime item < m" using assms by (simp add: goodQueue_def)
  qed
  from s b show ?thesis
    by (auto simp: goodQueue_def sorted_wrt_map sorted_wrt_filter)
qed

lemma processCurve_refines:
  assumes good: "goodQueue m (queuesByCurve s (id_curve c))"
  shows "tallyOf (processCurve m dem c s) = curveSlots m dem c (tallyOf s)"
    and "goodQueue (Suc m) (queuesByCurve (processCurve m dem c s) (id_curve c))"
proof -
  let ?cid = "id_curve c"
  let ?q = "queuesByCurve s ?cid"
  let ?d = "dem ?cid ! m"
  let ?v = "availableCapacity s"
  let ?imm = "min ?d ?v"
  let ?new = "\<lparr> arrivalTime = m, demand = ?d - ?imm, curveId = ?cid, priority_item = priority c \<rparr>"
  let ?x = "tallyOf s"
  let ?xa = "arrive (?cid, m) ?d ?x"
  let ?xs = "serveSlot (?cid, m) ?xa"
  have qm: "slotRem ?q a = 0" if "m \<le> a" for a
    using goodQueue_absent[OF good that] .
  have pos: "\<forall>item \<in> set ?q. 0 < demand item" using good by (simp add: goodQueue_def)
  have xa_rem: "remaining ?xa = (remaining ?x)((?cid, m) := ?d)"
    by (simp add: arrive_def tallyOf_def qm)
  have xs: "servedSoFar ?xs = totalUtilization s + actualUsage s + ?imm"
    "capacityLeft ?xs = ?v - ?imm"
    "remaining ?xs = (remaining ?x)((?cid, m) := ?d - ?imm)"
    by (simp_all add: serveSlot_fields xa_rem) (simp_all add: arrive_def tallyOf_def)
  have xs_rem: "remaining ?xs (k, a) =
      (if k = ?cid \<and> a = m then ?d - ?imm else slotRem (queuesByCurve s k) a)" for k a
  proof -
    have "remaining ?xs (k, a) = (if k = ?cid \<and> a = m then ?d - ?imm else remaining ?x (k, a))"
      by (simp add: xs(3))
    then show ?thesis by (simp add: tallyOf_def)
  qed
  have both: "tallyOf (processCurve m dem c s) = curveSlots m dem c (tallyOf s) \<and>
      goodQueue (Suc m) (queuesByCurve (processCurve m dem c s) (id_curve c))"
  proof (cases "0 < ?d - ?imm")
    case True
    then have imm: "?imm = ?v" by (simp add: min_def split: if_splits)
    have gp: "goodQueue (Suc m) (?q @ [?new])" by (rule goodQueue_push[OF good True])
    have srt: "sort_key arrivalTime (?q @ [?new]) = ?q @ [?new]" by (rule goodQueue_sorted[OF gp])
    have keep: "filter (\<lambda>item. 0 < demand item) (?q @ [?new]) = ?q @ [?new]"
      using pos True by simp
    have pc: "processCurve m dem c s =
        s\<lparr> queuesByCurve := (queuesByCurve s)(?cid := ?q @ [?new]),
           availableCapacity := 0, actualUsage := actualUsage s + ?v,
           utilizationByCurve := (utilizationByCurve s)(?cid := utilizationByCurve s ?cid + ?v),
           usageValuesByCurve := (usageValuesByCurve s)(?cid := usageValuesByCurve s ?cid @ [(m, ?v)]) \<rparr>"
      using True imm srt keep
      by (simp add: processCurve_def Let_def serveQueue_no_capacity)
    have qnn: "0 \<le> slotRem ?q a" for a
      by (rule slotRem_nonneg) (use pos in \<open>auto simp: less_imp_le\<close>)
    have nn: "\<forall>i \<in> set (map (Pair ?cid) [0..<m]). 0 \<le> remaining ?xs i"
      using qnn by (auto simp: xs_rem)
    have "curveSlots m dem c ?x = ?xs"
      unfolding curveSlots_def
      by (rule fold_serveSlot_no_capacity[OF nn]) (simp add: xs(2) imm)
    moreover have "tallyOf (processCurve m dem c s) = ?xs"
    proof (rule tally.equality)
      show "servedSoFar (tallyOf (processCurve m dem c s)) = servedSoFar ?xs"
        by (simp add: xs(1) imm) (simp add: pc tallyOf_def)
      show "capacityLeft (tallyOf (processCurve m dem c s)) = capacityLeft ?xs"
        by (simp add: xs(2) imm) (simp add: pc tallyOf_def)
      show "remaining (tallyOf (processCurve m dem c s)) = remaining ?xs"
      proof (rule ext)
        fix i :: "string \<times> nat"
        obtain k a where i: "i = (k, a)" by (cases i)
        have "remaining (tallyOf (processCurve m dem c s)) (k, a) =
            slotRem (if k = ?cid then ?q @ [?new] else queuesByCurve s k) a"
          by (simp add: pc tallyOf_def)
        then show "remaining (tallyOf (processCurve m dem c s)) i = remaining ?xs i"
          unfolding i xs_rem using qm[of a] imm
          by (auto simp: slotRem_append slotRem_Cons)
      qed
      show "tally.more (tallyOf (processCurve m dem c s)) = tally.more ?xs" by simp
    qed
    ultimately have "tallyOf (processCurve m dem c s) = curveSlots m dem c (tallyOf s)" by simp
    moreover have "goodQueue (Suc m) (queuesByCurve (processCurve m dem c s) (id_curve c))"
      using gp by (simp add: pc)
    ultimately show ?thesis by simp
  next
    case False
    then have imm: "?imm = ?d" by (simp add: min_def split: if_splits)
    then have dv: "?d \<le> ?v" by (simp add: min_def split: if_splits)
    have srt: "sort_key arrivalTime ?q = ?q" by (rule goodQueue_sorted[OF good])
    obtain q' v' u' cu' where sq: "serveQueue ?q (?v - ?d) (actualUsage s + ?d) ?d = (q', v', u', cu')"
      by (metis prod_cases4)
    have pc: "processCurve m dem c s =
        s\<lparr> queuesByCurve := (queuesByCurve s)(?cid := filter (\<lambda>item. 0 < demand item) q'),
           availableCapacity := v', actualUsage := u',
           utilizationByCurve := (utilizationByCurve s)(?cid := utilizationByCurve s ?cid + cu'),
           usageValuesByCurve := (usageValuesByCurve s)(?cid := usageValuesByCurve s ?cid @ [(m, cu')]) \<rparr>"
      using False imm srt sq by (simp add: processCurve_def Let_def)
    have sums: "u' = actualUsage s + ?d + (?v - ?d - v')"
      using serveQueue_sums[OF sq] by simp
    have q'nn: "\<forall>item \<in> set q'. 0 \<le> demand item"
      using serveQueue_nonneg[of ?q "?v - ?d" "actualUsage s + ?d" ?d] pos sq
      by (auto simp: less_imp_le)
    have arr: "map arrivalTime q' = map arrivalTime ?q"
      using serveQueue_arrival[of ?q "?v - ?d" "actualUsage s + ?d" ?d] sq by simp
    have q'm: "slotRem q' a = 0" if "m \<le> a" for a
      by (rule slotRem_cong_arrival[OF arr]) (use good that in \<open>auto simp: goodQueue_def\<close>)
    have cap: "capacityLeft ?xs = ?v - ?d" using xs(2) imm by simp
    have sq': "serveQueue ?q (capacityLeft ?xs) (actualUsage s + ?d) ?d = (q', v', u', cu')"
      using sq cap by simp
    have ref: "fold serveSlot (map (Pair ?cid) [0..<m]) ?xs =
           ?xs\<lparr> servedSoFar := servedSoFar ?xs + (capacityLeft ?xs - v'), capacityLeft := v',
              remaining := (\<lambda>i. if fst i = ?cid \<and> 0 \<le> snd i \<and> snd i < m
                                 then slotRem q' (snd i) else remaining ?xs i) \<rparr>"
    proof (rule serveQueue_refines[OF _ _ _ _ sq'])
      show "sorted_wrt (<) (map arrivalTime ?q)" using good by (simp add: goodQueue_def)
      show "\<forall>item \<in> set ?q. 0 \<le> arrivalTime item \<and> arrivalTime item < m \<and> 0 < demand item"
        using good by (simp add: goodQueue_def)
      show "0 \<le> capacityLeft ?xs" using cap dv by simp
      show "\<forall>a. 0 \<le> a \<and> a < m \<longrightarrow> remaining ?xs (?cid, a) = slotRem ?q a"
        by (simp add: xs_rem)
    qed
    have "tallyOf (processCurve m dem c s) = fold serveSlot (map (Pair ?cid) [0..<m]) ?xs"
      unfolding ref
    proof (rule tally.equality)
      show "servedSoFar (tallyOf (processCurve m dem c s)) =
          servedSoFar (?xs\<lparr> servedSoFar := servedSoFar ?xs + (capacityLeft ?xs - v'), capacityLeft := v',
              remaining := (\<lambda>i. if fst i = ?cid \<and> 0 \<le> snd i \<and> snd i < m
                                 then slotRem q' (snd i) else remaining ?xs i) \<rparr>)"
        using sums by (simp add: xs(1) cap imm) (simp add: pc tallyOf_def)
      show "capacityLeft (tallyOf (processCurve m dem c s)) =
          capacityLeft (?xs\<lparr> servedSoFar := servedSoFar ?xs + (capacityLeft ?xs - v'), capacityLeft := v',
              remaining := (\<lambda>i. if fst i = ?cid \<and> 0 \<le> snd i \<and> snd i < m
                                 then slotRem q' (snd i) else remaining ?xs i) \<rparr>)"
        by (simp add: pc tallyOf_def)
      show "remaining (tallyOf (processCurve m dem c s)) =
          remaining (?xs\<lparr> servedSoFar := servedSoFar ?xs + (capacityLeft ?xs - v'), capacityLeft := v',
              remaining := (\<lambda>i. if fst i = ?cid \<and> 0 \<le> snd i \<and> snd i < m
                                 then slotRem q' (snd i) else remaining ?xs i) \<rparr>)"
      proof (rule ext)
        fix i :: "string \<times> nat"
        obtain k a where i: "i = (k, a)" by (cases i)
        show "remaining (tallyOf (processCurve m dem c s)) i =
          remaining (?xs\<lparr> servedSoFar := servedSoFar ?xs + (capacityLeft ?xs - v'), capacityLeft := v',
              remaining := (\<lambda>i. if fst i = ?cid \<and> 0 \<le> snd i \<and> snd i < m
                                 then slotRem q' (snd i) else remaining ?xs i) \<rparr>) i"
        proof -
          have "remaining (tallyOf (processCurve m dem c s)) (k, a) =
              slotRem (if k = ?cid then filter (\<lambda>item. 0 < demand item) q' else queuesByCurve s k) a"
            by (simp add: pc tallyOf_def)
          then show ?thesis
            unfolding i using q'm[of a] qm[of a] imm
            by (auto simp: xs_rem slotRem_filter_pos[OF q'nn])
        qed
      qed
      show "tally.more (tallyOf (processCurve m dem c s)) =
          tally.more (?xs\<lparr> servedSoFar := servedSoFar ?xs + (capacityLeft ?xs - v'), capacityLeft := v',
              remaining := (\<lambda>i. if fst i = ?cid \<and> 0 \<le> snd i \<and> snd i < m
                                 then slotRem q' (snd i) else remaining ?xs i) \<rparr>)"
        by simp
    qed
    then have "tallyOf (processCurve m dem c s) = curveSlots m dem c (tallyOf s)"
      by (simp add: curveSlots_def)
    moreover have "goodQueue m (filter (\<lambda>item. 0 < demand item) (fst (serveQueue ?q (?v - ?d) (actualUsage s + ?d) ?d)))"
      by (rule goodQueue_served[OF good])
    then have "goodQueue (Suc m) (queuesByCurve (processCurve m dem c s) (id_curve c))"
      using sq by (simp add: pc goodQueue_Suc)
    ultimately show ?thesis by simp
  qed
  from both show "tallyOf (processCurve m dem c s) = curveSlots m dem c (tallyOf s)"
    and "goodQueue (Suc m) (queuesByCurve (processCurve m dem c s) (id_curve c))"
    by simp_all
qed

lemma fold_processCurve_refines:
  assumes "distinct (map id_curve cs)"
    and "\<forall>c \<in> set cs. goodQueue m (queuesByCurve s (id_curve c))"
    and "\<forall>cid. goodQueue (Suc m) (queuesByCurve s cid)"
  shows "tallyOf (fold (processCurve m dem) cs s) = fold (curveSlots m dem) cs (tallyOf s) \<and>
         (\<forall>cid. goodQueue (Suc m) (queuesByCurve (fold (processCurve m dem) cs s) cid))"
  using assms
proof (induction cs arbitrary: s)
  case Nil
  then show ?case by simp
next
  case (Cons c cs)
  let ?sa = "processCurve m dem c s"
  have good: "goodQueue m (queuesByCurve s (id_curve c))" using Cons.prems(2) by simp
  have t: "tallyOf ?sa = curveSlots m dem c (tallyOf s)"
    by (rule processCurve_refines(1)[OF good])
  have g: "goodQueue (Suc m) (queuesByCurve ?sa (id_curve c))"
    by (rule processCurve_refines(2)[OF good])
  have a: "distinct (map id_curve cs)" using Cons.prems(1) by simp
  have b: "\<forall>c' \<in> set cs. goodQueue m (queuesByCurve ?sa (id_curve c'))"
  proof
    fix c' assume c': "c' \<in> set cs"
    then have "id_curve c' \<in> id_curve ` set cs" by (rule imageI)
    moreover have "id_curve c \<notin> id_curve ` set cs" using Cons.prems(1) by simp
    ultimately have "id_curve c' \<noteq> id_curve c" by metis
    then show "goodQueue m (queuesByCurve ?sa (id_curve c'))"
      using Cons.prems(2) c' by (simp add: processCurve_other)
  qed
  have c: "\<forall>cid. goodQueue (Suc m) (queuesByCurve ?sa cid)"
  proof
    fix cid
    show "goodQueue (Suc m) (queuesByCurve ?sa cid)"
      using g Cons.prems(3) by (cases "cid = id_curve c") (simp_all add: processCurve_other)
  qed
  from Cons.IH[OF a b c] t show ?case by simp
qed

lemma timedOut_by_arrival:
  "(\<lambda>item. \<not> timedOut m qt item) = (\<lambda>item. \<not> (int m - int (arrivalTime item) > qt))"
  by (rule ext) (simp add: timedOut_def)

lemma expireStep_queues:
  "queuesByCurve (expireStep m qt cs s) cid =
     (if cid \<in> curveIds cs
      then filter (\<lambda>item. \<not> (int m - int (arrivalTime item) > qt)) (queuesByCurve s cid)
      else queuesByCurve s cid)"
  by (simp add: expireStep_def fold_expireCurve_queues curveIds_def timedOut_by_arrival)

lemma expireStep_allGood: "allGood m s \<Longrightarrow> allGood m (expireStep m qt cs s)"
  by (simp add: allGood_def expireStep_queues goodQueue_filter)

lemma expireStep_refines:
  "tallyOf ((expireStep m qt cs s)\<lparr>availableCapacity := machines, actualUsage := 0\<rparr>) =
     (expireSlots (expiredSlots m qt cs) (tallyAtMinuteEnd s))\<lparr>capacityLeft := machines\<rparr>"
proof (rule tally.equality)
  let ?l = "tallyOf ((expireStep m qt cs s)\<lparr>availableCapacity := machines, actualUsage := 0\<rparr>)"
  let ?r = "(expireSlots (expiredSlots m qt cs) (tallyAtMinuteEnd s))\<lparr>capacityLeft := machines\<rparr>"
  show "servedSoFar ?l = servedSoFar ?r"
    by (simp add: tallyOf_def tallyAtMinuteEnd_def expireSlots_def expireStep_frame)
  show "capacityLeft ?l = capacityLeft ?r"
    by (simp add: tallyOf_def)
  show "remaining ?l = remaining ?r"
  proof (rule ext)
    fix i :: "string \<times> nat"
    obtain k a where i: "i = (k, a)" by (cases i)
    show "remaining ?l i = remaining ?r i"
      unfolding i
      by (simp add: tallyOf_def tallyAtMinuteEnd_def expireSlots_def expiredSlots_def
            expireStep_queues slotRem_filter_arrival[of "\<lambda>a. \<not> (int m - int a > qt)"])
  qed
  show "tally.more ?l = tally.more ?r" by simp
qed

lemma minuteStep_refines:
  assumes dist: "distinct (map id_curve cs)" and good: "allGood m s"
  shows "tallyAtMinuteEnd (minuteStep machines cs qt dem m s) =
           slotMinute machines cs qt dem m (tallyAtMinuteEnd s)"
    and "allGood (Suc m) (minuteStep machines cs qt dem m s)"
proof -
  let ?e = "expireStep m qt cs s"
  let ?sa = "?e\<lparr>availableCapacity := machines, actualUsage := 0\<rparr>"
  let ?v = "fold (processCurve m dem) (sort_key priority cs) ?sa"
  have ge: "allGood m ?e" by (rule expireStep_allGood[OF good])
  have d: "distinct (map id_curve (sort_key priority cs))"
    using dist by (simp add: distinct_map)
  have a: "\<forall>c \<in> set (sort_key priority cs). goodQueue m (queuesByCurve ?sa (id_curve c))"
    using ge by (simp add: allGood_def)
  have b: "\<forall>cid. goodQueue (Suc m) (queuesByCurve ?sa cid)"
    using ge by (simp add: allGood_def goodQueue_Suc)
  from fold_processCurve_refines[OF d a b, of dem]
  have t: "tallyOf ?v = fold (curveSlots m dem) (sort_key priority cs) (tallyOf ?sa)"
    and g: "\<forall>cid. goodQueue (Suc m) (queuesByCurve ?v cid)" by simp_all
  have v: "serveStep machines m dem cs ?e = ?v" by (simp add: serveStep_def)
  have "tallyAtMinuteEnd (minuteStep machines cs qt dem m s) = tallyOf ?v"
    unfolding minuteStep_def v
    by (simp add: tallyAtMinuteEnd_def tallyOf_def recordMinute_frame)
  then show "tallyAtMinuteEnd (minuteStep machines cs qt dem m s) =
           slotMinute machines cs qt dem m (tallyAtMinuteEnd s)"
    by (simp add: t expireStep_refines slotMinute_def)
  show "allGood (Suc m) (minuteStep machines cs qt dem m s)"
    using g unfolding minuteStep_def v by (simp add: allGood_def recordMinute_frame)
qed

lemma simulateMinutes_allGood:
  "distinct (map id_curve cs) \<Longrightarrow> allGood n (simulateMinutes machines cs qt dem n)"
proof (induction n)
  case 0
  show ?case by (simp add: allGood_def goodQueue_def initialState_def)
next
  case (Suc n)
  then show ?case by (simp add: simulateMinutes_Suc minuteStep_refines(2))
qed

text \<open>A minute of slot service is monotone, and so is the run.\<close>

lemma curveSlots_dominated:
  "dominated x y \<Longrightarrow> dominated (curveSlots m dem c x) (curveSlots m dem c y)"
  unfolding curveSlots_def
  by (intro fold_serveSlot_dominated serveSlot_dominated arrive_dominated)

lemma fold_curveSlots_dominated:
  "dominated x y \<Longrightarrow> dominated (fold (curveSlots m dem) cs x) (fold (curveSlots m dem) cs y)"
  by (induction cs arbitrary: x y) (simp_all add: curveSlots_dominated)

lemma slotMinute_mono:
  assumes le: "\<forall>Y. finite Y \<longrightarrow> phi Y x \<le> phi Y y"
    and t: "t1 \<le> t2" and nonneg: "\<forall>i. 0 \<le> remaining y i"
  shows "\<forall>Y. finite Y \<longrightarrow>
           phi Y (slotMinute machines cs t1 dem m x) \<le> phi Y (slotMinute machines cs t2 dem m y)"
proof -
  let ?xa = "(expireSlots (expiredSlots m t1 cs) x)\<lparr>capacityLeft := machines\<rparr>"
  let ?ya = "(expireSlots (expiredSlots m t2 cs) y)\<lparr>capacityLeft := machines\<rparr>"
  have sub: "expiredSlots m t2 cs \<subseteq> expiredSlots m t1 cs"
    using t by (auto simp: expiredSlots_def)
  have p: "phi Y (expireSlots (expiredSlots m t1 cs) x) \<le> phi Y (expireSlots (expiredSlots m t2 cs) y)"
    if "finite Y" for Y
    by (rule expireSlots_phi_mono[OF le sub nonneg that])
  have "dominated ?xa ?ya"
    unfolding dominated_def
  proof (intro allI impI)
    fix Y :: "(string \<times> nat) set" assume fin: "finite Y"
    have "phi Y ?xa = phi Y (expireSlots (expiredSlots m t1 cs) x)"
      "phi Y ?ya = phi Y (expireSlots (expiredSlots m t2 cs) y)"
      "gam Y ?xa = phi Y (expireSlots (expiredSlots m t1 cs) x) + machines"
      "gam Y ?ya = phi Y (expireSlots (expiredSlots m t2 cs) y) + machines"
      by (simp_all add: phi_def gam_def)
    then show "phi Y ?xa \<le> phi Y ?ya \<and> gam Y ?xa \<le> gam Y ?ya"
      using p[OF fin] by simp
  qed
  then have "dominated (slotMinute machines cs t1 dem m x) (slotMinute machines cs t2 dem m y)"
    unfolding slotMinute_def by (rule fold_curveSlots_dominated)
  then show ?thesis by (simp add: dominated_def)
qed

lemma simulateMinutes_served_mono:
  assumes dist: "distinct (map id_curve cs)" and t: "t1 \<le> t2"
  shows "\<forall>Y. finite Y \<longrightarrow>
           phi Y (tallyAtMinuteEnd (simulateMinutes machines cs t1 dem n)) \<le>
           phi Y (tallyAtMinuteEnd (simulateMinutes machines cs t2 dem n))"
proof (induction n)
  case 0
  show ?case by simp
next
  case (Suc n)
  let ?x = "tallyAtMinuteEnd (simulateMinutes machines cs t1 dem n)"
  let ?y = "tallyAtMinuteEnd (simulateMinutes machines cs t2 dem n)"
  have nonneg: "\<forall>i. 0 \<le> remaining ?y i"
  proof
    fix i :: "string \<times> nat"
    have "positiveQueues (simulateMinutes machines cs t2 dem n)" by (rule simulateMinutes_positive)
    then have "\<forall>item \<in> set (queuesByCurve (simulateMinutes machines cs t2 dem n) (fst i)). 0 \<le> demand item"
      by (auto simp: positiveQueues_def less_imp_le)
    then show "0 \<le> remaining ?y i"
      by (simp add: tallyAtMinuteEnd_def slotRem_nonneg)
  qed
  have "tallyAtMinuteEnd (simulateMinutes machines cs t1 dem (Suc n)) = slotMinute machines cs t1 dem n ?x"
    "tallyAtMinuteEnd (simulateMinutes machines cs t2 dem (Suc n)) = slotMinute machines cs t2 dem n ?y"
    by (simp_all add: simulateMinutes_Suc minuteStep_refines(1)[OF dist simulateMinutes_allGood[OF dist]])
  then show ?case
    using slotMinute_mono[OF Suc t nonneg, of machines cs dem n] by simp
qed

lemma totalUtilization_mono:
  assumes "distinct (map id_curve cs)" "t1 \<le> t2"
  shows "totalUtilization (simulateMinutes machines cs t1 dem n) \<le>
         totalUtilization (simulateMinutes machines cs t2 dem n)"
  using simulateMinutes_served_mono[OF assms, of machines dem n]
  by (auto simp: phi_def tallyAtMinuteEnd_def dest!: spec[where x = "{}"])

lemma totalShedDemand_antimono:
  assumes dist: "distinct (map id_curve cs)" and t: "t1 \<le> t2"
  shows "totalShedDemand (finalState machines cs t2) \<le> totalShedDemand (finalState machines cs t1)"
proof -
  have "totalUtilization (finalState machines cs t1) \<le> totalUtilization (finalState machines cs t2)"
    using totalUtilization_mono[OF dist t, of machines "demandByCurve cs" 1440]
    by (simp add: finalState_def shedRemaining_frame)
  then show ?thesis
    using finalState_conservation_total[OF dist, of machines t1]
      finalState_conservation_total[OF dist, of machines t2] by simp
qed

text \<open>Every sample of that curve is between 0 and 100.\<close>

lemma wideCurve_fits:
  "\<forall>m < 1440. 0 \<le> curveDemandArray wideCurve ! m \<and> curveDemandArray wideCurve ! m \<le> 100"
proof (intro allI impI)
  fix m :: nat assume m: "m < 1440"
  let ?k = "100000 / (24 * 60 * sqrt (2 * pi))"
  let ?g = "gaussian (real m) (12 * 60) (24 * 60)"
  have arr: "curveDemandArray wideCurve = generateGaussianDemand 100000 12 24"
    by (simp add: curveDemandArray_def wideCurve_def)
  have v: "curveDemandArray wideCurve ! m = ?k * ?g"
    unfolding arr by (rule nth_gaussian[OF m])
  have k0: "0 \<le> ?k" by simp
  have "24 * 60 * 2 \<le> 24 * 60 * sqrt (2 * pi)" using sqrt_2pi_ge_2 by simp
  then have "?k \<le> 100000 / (24 * 60 * 2)" by (intro divide_left_mono) simp_all
  then have k100: "?k \<le> 100" by simp
  have "?k * ?g \<le> ?k * 1" by (rule mult_left_mono[OF gaussian_le_1 k0])
  with k100 have hi: "?k * ?g \<le> 100" by simp
  have lo: "0 \<le> ?k * ?g" by (rule mult_nonneg_nonneg[OF k0 gaussian_nonneg])
  from lo hi show "0 \<le> curveDemandArray wideCurve ! m \<and> curveDemandArray wideCurve ! m \<le> 100"
    unfolding v by simp
qed

lemma wideCurve_samples:
  "0 \<le> Min (set (curveDemandArray wideCurve)) \<and> Max (set (curveDemandArray wideCurve)) \<le> 100"
proof -
  have ne: "set (curveDemandArray wideCurve) \<noteq> {}"
    using length_curveDemandArray[of wideCurve] by auto
  have all: "\<forall>x \<in> set (curveDemandArray wideCurve). 0 \<le> x \<and> x \<le> 100"
    using wideCurve_fits by (auto simp: in_set_conv_nth length_curveDemandArray)
  then show ?thesis using ne by simp
qed

section \<open>The claims\<close>

subsection \<open>C1: conservation\<close>

text \<open>
  C1, as the specification states it, fails: with one Gaussian curve of volume 100000 whose
  spread is 24 hours (capacity 100, timeout 30), served plus shed is at most 50000, so it is
  not within 0.2% of the configured volume. The generator scales by the integral of the
  continuous bell over the whole line and never renormalises the 1440 samples.
\<close>

theorem conservation_tolerance_counterexample:
  "\<not> \<bar>utilizationByCurve (finalState 100 [wideCurve] 30) ''curve-1'' +
       shedByCurve (finalState 100 [wideCurve] 30) ''curve-1'' - totalDemand wideCurve\<bar>
     \<le> 0.002 * \<bar>totalDemand wideCurve\<bar>"
  using wideCurve_total[of 100 30] by (simp add: wideCurve_def)

text \<open>
  C1, amended: when the curve ids are distinct and every curve that is not linear has a
  positive spread, every curve's served total plus its shed total equals the sum of the
  demand array generated for it, exactly; for a linear curve that sum is the configured
  \<open>totalDemand\<close>, exactly; and the aggregate served plus the aggregate shed equals the sum of
  all the generated arrays. (With a spread of 0 the code's samples are NaN and nothing of
  this holds, not even for a linear curve served after such a curve.)
\<close>

theorem conservation_exact:
  "distinct (map id_curve curves) \<Longrightarrow>
   \<forall>c' \<in> set curves. type_curve c' \<noteq> ''linear'' \<longrightarrow> 0 < curveWidth c' \<Longrightarrow>
   c \<in> set curves \<Longrightarrow>
     utilizationByCurve (finalState machines curves queueTimeout) (id_curve c) +
       shedByCurve (finalState machines curves queueTimeout) (id_curve c) =
       sum_list (curveDemandArray c) \<and>
     (type_curve c = ''linear'' \<longrightarrow>
        utilizationByCurve (finalState machines curves queueTimeout) (id_curve c) +
          shedByCurve (finalState machines curves queueTimeout) (id_curve c) = totalDemand c) \<and>
     totalUtilization (finalState machines curves queueTimeout) +
       totalShedDemand (finalState machines curves queueTimeout) =
       (\<Sum>c'\<leftarrow>curves. sum_list (curveDemandArray c'))"
  by (simp add: finalState_conservation finalState_conservation_total curveDemandArray_def
        sum_list_linear)

theorem conservation_exact_witness:
  "distinct (map id_curve test6Curves) \<and> hd test6Curves \<in> set test6Curves \<and>
   type_curve (hd test6Curves) = ''linear'' \<and> 0 < curveWidth (test6Curves ! 1) \<and>
   utilizationByCurve (finalState 80 test6Curves 60) ''curve-1'' +
     shedByCurve (finalState 80 test6Curves 60) ''curve-1'' = 50000"
  using conservation_exact[of test6Curves "hd test6Curves" 80 60]
  by (simp add: test6Curves_def)

subsection \<open>C2: sharing within a cohort\<close>

text \<open>
  C2 fails on this code: there is no cohort and no proportional split. The curves are
  served one after the other in sorted order, each taking \<open>min\<close> of its demand and what is
  left. With capacity 100, timeout 30 and two linear curves of the same volume 144000 (100 a
  minute) and the same priority, the first is served everything and the second nothing.
  Test 8 of \<^verbatim>\<open>test.js\<close> asserts that two such curves are served and shed equally within 1%,
  and the other copy of the module (\<^verbatim>\<open>src/unnamed/part_001\<close>) merges the queues of a
  priority level and splits the capacity over the items of one arrival minute.
\<close>

theorem identical_curves_served_unequally:
  "utilizationByCurve (finalState 100 twinCurves 30) ''curve-1'' = 144000 \<and>
   shedByCurve (finalState 100 twinCurves 30) ''curve-1'' = 0 \<and>
   utilizationByCurve (finalState 100 twinCurves 30) ''curve-2'' = 0 \<and>
   shedByCurve (finalState 100 twinCurves 30) ''curve-2'' = 144000"
proof -
  let ?a = "\<lparr> id_curve = ''curve-1'', type_curve = ''linear'', totalDemand = 144000, peakHour = 0,
         curveWidth = 0, priority = 1 \<rparr>"
  let ?b = "\<lparr> id_curve = ''curve-2'', type_curve = ''linear'', totalDemand = 144000, peakHour = 0,
         curveWidth = 0, priority = 1 \<rparr>"
  have dist: "distinct (map id_curve twinCurves)" by (simp add: twinCurves_def)
  have srt: "sort_key priority twinCurves = ?a # [?b]" by (simp add: twinCurves_def)
  have big: "\<forall>m < 1440. 100 \<le> curveDemandArray ?a ! m"
    by (simp add: curveDemandArray_linear_nth)
  have wf: "\<forall>c' \<in> set [?b]. wellFormedCurve c'" by (simp add: wellFormedCurve_def)
  have u: "utilizationByCurve (finalState 100 twinCurves 30) = (\<lambda>_. 0)(id_curve ?a := 1440 * 100)"
    using finalState_first_takes_all[OF dist srt big wf, of 30] by simp
  have sa: "shedByCurve (finalState 100 twinCurves 30) (id_curve ?a) =
      sum_list (curveDemandArray ?a) - utilizationByCurve (finalState 100 twinCurves 30) (id_curve ?a)"
    by (rule finalState_shed[OF dist]) (simp add: twinCurves_def)
  have sb: "shedByCurve (finalState 100 twinCurves 30) (id_curve ?b) =
      sum_list (curveDemandArray ?b) - utilizationByCurve (finalState 100 twinCurves 30) (id_curve ?b)"
    by (rule finalState_shed[OF dist]) (simp add: twinCurves_def)
  from u sa sb show ?thesis by (simp add: sum_list_curveDemandArray_linear)
qed

subsection \<open>C3: priority dominance\<close>

text \<open>
  C3, as the specification states it, fails for a Gaussian curve: with capacity 100 and
  timeout 30, the curve whose spread is 24 hours (volume 100000, priority 1) before the
  linear curve of priority 2, every sample of the first curve is between 0 and 100, so its
  demand fits within the capacity at every minute, and yet it is served at most 50000: the
  served total is what was generated, not the configured volume.
\<close>

theorem priority_dominance_counterexample:
  "distinct (map id_curve [wideCurve, p2Curve]) \<and> priority wideCurve < priority p2Curve \<and>
   0 \<le> Min (set (curveDemandArray wideCurve)) \<and>
   Max (set (curveDemandArray wideCurve)) \<le> 100 \<and>
   \<not> \<bar>utilizationByCurve (finalState 100 [wideCurve, p2Curve] 30) ''curve-1'' -
        totalDemand wideCurve\<bar> \<le> 0.002 * \<bar>totalDemand wideCurve\<bar>"
proof -
  have dist: "distinct (map id_curve [wideCurve, p2Curve])"
    by (simp add: wideCurve_def p2Curve_def)
  have pr: "priority wideCurve < priority p2Curve" by (simp add: wideCurve_def p2Curve_def)
  have cin: "wideCurve \<in> set [wideCurve, p2Curve]" by simp
  have first: "\<forall>c' \<in> set [wideCurve, p2Curve]. c' \<noteq> wideCurve \<longrightarrow> priority wideCurve < priority c'"
    using pr by simp
  have "utilizationByCurve (finalState 100 [wideCurve, p2Curve] 30) (id_curve wideCurve) =
      sum_list (curveDemandArray wideCurve)"
    by (rule finalState_first_fits[OF dist cin first wideCurve_fits])
  moreover have "sum_list (curveDemandArray wideCurve) \<le> 100000 / 2"
    using wide_gaussian_half[of 100000 12] by (simp add: curveDemandArray_def wideCurve_def)
  ultimately have "utilizationByCurve (finalState 100 [wideCurve, p2Curve] 30) ''curve-1'' \<le> 50000"
    by (simp add: wideCurve_def)
  then have far: "\<not> \<bar>utilizationByCurve (finalState 100 [wideCurve, p2Curve] 30) ''curve-1'' -
        totalDemand wideCurve\<bar> \<le> 0.002 * \<bar>totalDemand wideCurve\<bar>"
    by (simp add: wideCurve_def)
  from dist pr wideCurve_samples far show ?thesis by simp
qed

text \<open>
  C3, amended: when the curve ids are distinct, every curve that is not linear has a
  positive spread, and a curve has strictly the highest priority (the lowest number) and
  its demand is at least 0 and at most the capacity at every minute, its served total is
  the sum of the demand array generated for it, exactly (its \<open>totalDemand\<close> if it is
  linear), it sheds nothing, and so all that is shed is shed by the other curves. In the
  example (capacity 100, linear curves of 216000 at priority 1 and 144000 at priority 2,
  timeout 30) the first curve is served 144000 and sheds 72000, the second is served 0 and
  sheds 144000, exactly.
\<close>

theorem priority_dominance:
  "(distinct (map id_curve curves) \<and>
    (\<forall>c' \<in> set curves. type_curve c' \<noteq> ''linear'' \<longrightarrow> 0 < curveWidth c') \<and>
    c \<in> set curves \<and>
    (\<forall>c' \<in> set curves. c' \<noteq> c \<longrightarrow> priority c < priority c') \<and>
    (\<forall>m < 1440. 0 \<le> curveDemandArray c ! m \<and> curveDemandArray c ! m \<le> machines) \<longrightarrow>
      utilizationByCurve (finalState machines curves queueTimeout) (id_curve c) =
        sum_list (curveDemandArray c) \<and>
      (type_curve c = ''linear'' \<longrightarrow>
         utilizationByCurve (finalState machines curves queueTimeout) (id_curve c) = totalDemand c) \<and>
      shedByCurve (finalState machines curves queueTimeout) (id_curve c) = 0 \<and>
      totalShedDemand (finalState machines curves queueTimeout) =
        (\<Sum>cid \<in> curveIds curves - {id_curve c}.
           shedByCurve (finalState machines curves queueTimeout) cid)) \<and>
   utilizationByCurve (finalState 100 [p1Curve, p2Curve] 30) ''p1'' = 144000 \<and>
   shedByCurve (finalState 100 [p1Curve, p2Curve] 30) ''p1'' = 72000 \<and>
   utilizationByCurve (finalState 100 [p1Curve, p2Curve] 30) ''p2'' = 0 \<and>
   shedByCurve (finalState 100 [p1Curve, p2Curve] 30) ''p2'' = 144000"
proof -
  have general: "utilizationByCurve (finalState machines curves queueTimeout) (id_curve c) =
        sum_list (curveDemandArray c) \<and>
      (type_curve c = ''linear'' \<longrightarrow>
         utilizationByCurve (finalState machines curves queueTimeout) (id_curve c) = totalDemand c) \<and>
      shedByCurve (finalState machines curves queueTimeout) (id_curve c) = 0 \<and>
      totalShedDemand (finalState machines curves queueTimeout) =
        (\<Sum>cid \<in> curveIds curves - {id_curve c}.
           shedByCurve (finalState machines curves queueTimeout) cid)"
    if dist: "distinct (map id_curve curves)" and cin: "c \<in> set curves"
      and first: "\<forall>c' \<in> set curves. c' \<noteq> c \<longrightarrow> priority c < priority c'"
      and fits: "\<forall>m < 1440. 0 \<le> curveDemandArray c ! m \<and> curveDemandArray c ! m \<le> machines"
  proof -
    let ?f = "finalState machines curves queueTimeout"
    have u: "utilizationByCurve ?f (id_curve c) = sum_list (curveDemandArray c)"
      by (rule finalState_first_fits[OF dist cin first fits])
    have s: "shedByCurve ?f (id_curve c) = 0"
      using finalState_shed[OF dist cin, of machines queueTimeout] u by simp
    have "id_curve c \<in> curveIds curves" using cin by (simp add: curveIds_def)
    then have "sum (shedByCurve ?f) (curveIds curves) =
        shedByCurve ?f (id_curve c) + sum (shedByCurve ?f) (curveIds curves - {id_curve c})"
      by (simp add: sum.remove)
    with s have t: "totalShedDemand ?f = sum (shedByCurve ?f) (curveIds curves - {id_curve c})"
      using finalState_totalsAgree[OF dist, of machines queueTimeout] by (simp add: totalsAgree_def)
    from u s t show ?thesis by (simp add: sum_list_curveDemandArray_linear)
  qed
  have dist: "distinct (map id_curve [p1Curve, p2Curve])" by (simp add: p1Curve_def p2Curve_def)
  have srt: "sort_key priority [p1Curve, p2Curve] = p1Curve # [p2Curve]"
    by (simp add: p1Curve_def p2Curve_def)
  have big: "\<forall>m < 1440. 100 \<le> curveDemandArray p1Curve ! m"
    by (simp add: curveDemandArray_linear_nth p1Curve_def)
  have wf: "\<forall>c' \<in> set [p2Curve]. wellFormedCurve c'" by (simp add: wellFormedCurve_def p2Curve_def)
  have u: "utilizationByCurve (finalState 100 [p1Curve, p2Curve] 30) = (\<lambda>_. 0)(id_curve p1Curve := 1440 * 100)"
    using finalState_first_takes_all[OF dist srt big wf, of 30] by simp
  have sa: "shedByCurve (finalState 100 [p1Curve, p2Curve] 30) (id_curve p1Curve) =
      sum_list (curveDemandArray p1Curve) -
      utilizationByCurve (finalState 100 [p1Curve, p2Curve] 30) (id_curve p1Curve)"
    by (rule finalState_shed[OF dist]) simp
  have sb: "shedByCurve (finalState 100 [p1Curve, p2Curve] 30) (id_curve p2Curve) =
      sum_list (curveDemandArray p2Curve) -
      utilizationByCurve (finalState 100 [p1Curve, p2Curve] 30) (id_curve p2Curve)"
    by (rule finalState_shed[OF dist]) simp
  have example: "utilizationByCurve (finalState 100 [p1Curve, p2Curve] 30) ''p1'' = 144000 \<and>
   shedByCurve (finalState 100 [p1Curve, p2Curve] 30) ''p1'' = 72000 \<and>
   utilizationByCurve (finalState 100 [p1Curve, p2Curve] 30) ''p2'' = 0 \<and>
   shedByCurve (finalState 100 [p1Curve, p2Curve] 30) ''p2'' = 144000"
    using u sa sb by (simp add: sum_list_curveDemandArray_linear p1Curve_def p2Curve_def)
  from general example show ?thesis by blast
qed

theorem priority_dominance_witness:
  "distinct (map id_curve test6Curves) \<and> 0 < curveWidth (test6Curves ! 1) \<and>
   hd test6Curves \<in> set test6Curves \<and>
   priority (hd test6Curves) < priority (test6Curves ! 1) \<and>
   curveDemandArray (hd test6Curves) ! 7 \<le> 80 \<and>
   utilizationByCurve (finalState 80 test6Curves 60) ''curve-1'' = 50000 \<and>
   shedByCurve (finalState 80 test6Curves 60) ''curve-1'' = 0"
proof -
  have fits: "\<forall>m < 1440. 0 \<le> curveDemandArray (hd test6Curves) ! m \<and>
      curveDemandArray (hd test6Curves) ! m \<le> 80"
    by (simp add: test6Curves_def curveDemandArray_linear_nth)
  have first: "\<forall>c' \<in> set test6Curves. c' \<noteq> hd test6Curves \<longrightarrow> priority (hd test6Curves) < priority c'"
    by (simp add: test6Curves_def)
  have dist: "distinct (map id_curve test6Curves)" by (simp add: test6Curves_def)
  have cin: "hd test6Curves \<in> set test6Curves" by (simp add: test6Curves_def)
  have spread: "\<forall>c' \<in> set test6Curves. type_curve c' \<noteq> ''linear'' \<longrightarrow> 0 < curveWidth c'"
    by (simp add: test6Curves_def)
  from priority_dominance[of test6Curves "hd test6Curves" 80 60] dist spread cin first fits
  have "utilizationByCurve (finalState 80 test6Curves 60) (id_curve (hd test6Curves)) =
          totalDemand (hd test6Curves) \<and>
        shedByCurve (finalState 80 test6Curves 60) (id_curve (hd test6Curves)) = 0"
    by (simp add: test6Curves_def)
  then show ?thesis
    using fits by (simp add: test6Curves_def)
qed

subsection \<open>C4: admission before serving, oldest first\<close>

text \<open>
  C4 fails on this code: the new demand of a minute is served first, before anything
  queued, and only what exceeds the capacity left is pushed. With capacity 100, timeout 30
  and one linear curve of 150 a minute, 50 units wait after minute 0; in minute 1 the 100
  units of capacity go to the demand of minute 1, and the 50 units that arrived in minute 0
  are still unserved afterwards. The other copy of the module (\<^verbatim>\<open>src/unnamed/part_001\<close>)
  queues all new demand first and then serves the merged queue oldest first.
\<close>

theorem new_demand_served_before_older:
  "queuesByCurve (simulateMinutes 100 [p1Curve] 30 (demandByCurve [p1Curve]) 1) ''p1'' =
     [\<lparr>arrivalTime = 0, demand = 50, curveId = ''p1'', priority_item = 1\<rparr>] \<and>
   queuesByCurve (simulateMinutes 100 [p1Curve] 30 (demandByCurve [p1Curve]) 2) ''p1'' =
     [\<lparr>arrivalTime = 0, demand = 50, curveId = ''p1'', priority_item = 1\<rparr>,
      \<lparr>arrivalTime = 1, demand = 50, curveId = ''p1'', priority_item = 1\<rparr>] \<and>
   utilizationByCurve (simulateMinutes 100 [p1Curve] 30 (demandByCurve [p1Curve]) 2) ''p1'' = 200"
proof -
  have d: "demandByCurve [p1Curve] ''p1'' ! m = 150" if "m < 1440" for m
    using that by (simp add: demandByCurve_def curveDemandArray_def p1Curve_def nth_linear)
  have one: "(1::nat) = Suc 0" and two: "(2::nat) = Suc (Suc 0)" by simp_all
  show ?thesis
    unfolding one two
    using two_minutes_gen[of "demandByCurve [p1Curve]"] d[of 0] d[of "Suc 0"] by simp
qed

subsection \<open>C5: timeout expiry\<close>

text \<open>
  C5: the expire step, which is the first step of every minute, leaves in every curve's
  queue exactly the items whose age \<open>minute - arrivalTime\<close> is at most the timeout; the
  full remaining demand of the removed items is added to the curve's shed total, to the
  aggregate shed total and to the minute's shed amount, which is the amount recorded for
  the minute; no item left has an age above the timeout; and serving a queue changes no
  field of an item but its remaining demand, so the arrival minute an age is measured from
  stays the original one.
\<close>

theorem timeout_expiry:
  "(\<forall>c \<in> set curves.
      queuesByCurve (expireStep minute queueTimeout curves s) (id_curve c) =
        filter (\<lambda>item. int minute - int (arrivalTime item) \<le> queueTimeout)
          (queuesByCurve s (id_curve c)) \<and>
      shedByCurve (expireStep minute queueTimeout curves s) (id_curve c) =
        shedByCurve s (id_curve c) +
        queueSum (filter (\<lambda>item. int minute - int (arrivalTime item) > queueTimeout)
          (queuesByCurve s (id_curve c))) \<and>
      (\<forall>item \<in> set (queuesByCurve (expireStep minute queueTimeout curves s) (id_curve c)).
         int minute - int (arrivalTime item) \<le> queueTimeout)) \<and>
   shedThisMinute (expireStep minute queueTimeout curves s) =
     (\<Sum>cid \<in> curveIds curves.
        queueSum (filter (\<lambda>item. int minute - int (arrivalTime item) > queueTimeout)
          (queuesByCurve s cid))) \<and>
   totalShedDemand (expireStep minute queueTimeout curves s) =
     totalShedDemand s + shedThisMinute (expireStep minute queueTimeout curves s) \<and>
   shed_dv (last (demandValues (minuteStep machines curves queueTimeout dem minute s))) =
     shedThisMinute (expireStep minute queueTimeout curves s) \<and>
   map (\<lambda>item. item\<lparr>demand := 0\<rparr>) (fst (serveQueue q avail used curveUsage)) =
     map (\<lambda>item. item\<lparr>demand := 0\<rparr>) q"
proof -
  let ?s0 = "s\<lparr>shedThisMinute := 0\<rparr>"
  have t: "timedOut minute queueTimeout = (\<lambda>item. int minute - int (arrivalTime item) > queueTimeout)"
    by (rule ext) (simp add: timedOut_def)
  have nt: "(\<lambda>item. \<not> timedOut minute queueTimeout item) =
      (\<lambda>item. int minute - int (arrivalTime item) \<le> queueTimeout)"
    by (rule ext) (auto simp: timedOut_def)
  have a: "\<forall>c \<in> set curves.
      queuesByCurve (expireStep minute queueTimeout curves s) (id_curve c) =
        filter (\<lambda>item. int minute - int (arrivalTime item) \<le> queueTimeout)
          (queuesByCurve s (id_curve c)) \<and>
      shedByCurve (expireStep minute queueTimeout curves s) (id_curve c) =
        shedByCurve s (id_curve c) +
        queueSum (filter (\<lambda>item. int minute - int (arrivalTime item) > queueTimeout)
          (queuesByCurve s (id_curve c))) \<and>
      (\<forall>item \<in> set (queuesByCurve (expireStep minute queueTimeout curves s) (id_curve c)).
         int minute - int (arrivalTime item) \<le> queueTimeout)"
    by (simp add: expireStep_def fold_expireCurve_queues fold_expireCurve_shedByCurve t nt not_less)
  have b: "shedThisMinute (expireStep minute queueTimeout curves s) =
     (\<Sum>cid \<in> curveIds curves.
        queueSum (filter (\<lambda>item. int minute - int (arrivalTime item) > queueTimeout)
          (queuesByCurve s cid)))"
    using fold_expireCurve_shedThisMinute[of minute queueTimeout curves ?s0]
    by (simp add: expireStep_def curveIds_def expiredAmount_def t)
  have c: "totalShedDemand (expireStep minute queueTimeout curves s) =
     totalShedDemand s + shedThisMinute (expireStep minute queueTimeout curves s)"
    using fold_expireCurve_shedThisMinute[of minute queueTimeout curves ?s0]
    by (simp add: expireStep_def)
  have d: "shed_dv (last (demandValues (minuteStep machines curves queueTimeout dem minute s))) =
     shedThisMinute (expireStep minute queueTimeout curves s)"
    by (simp add: minuteStep_def recordMinute_def Let_def serveStep_frame)
  have e: "map (\<lambda>item. item\<lparr>demand := 0\<rparr>) (fst (serveQueue q avail used curveUsage)) =
     map (\<lambda>item. item\<lparr>demand := 0\<rparr>) q"
    by (induction q avail used curveUsage rule: serveQueue.induct)
       (auto simp: Let_def split: prod.splits)
  from a b c d e show ?thesis by blast
qed

theorem timeout_expiry_witness:
  "queuesByCurve
     (expireStep 40 30 test6Curves
        (initialState\<lparr>queuesByCurve := (\<lambda>_. [])(''curve-1'' :=
           [\<lparr>arrivalTime = 9, demand = 5, curveId = ''curve-1'', priority_item = 1\<rparr>,
            \<lparr>arrivalTime = 10, demand = 7, curveId = ''curve-1'', priority_item = 1\<rparr>])\<rparr>))
     ''curve-1'' =
     [\<lparr>arrivalTime = 10, demand = 7, curveId = ''curve-1'', priority_item = 1\<rparr>] \<and>
   shedByCurve
     (expireStep 40 30 test6Curves
        (initialState\<lparr>queuesByCurve := (\<lambda>_. [])(''curve-1'' :=
           [\<lparr>arrivalTime = 9, demand = 5, curveId = ''curve-1'', priority_item = 1\<rparr>,
            \<lparr>arrivalTime = 10, demand = 7, curveId = ''curve-1'', priority_item = 1\<rparr>])\<rparr>))
     ''curve-1'' = 5"
  using timeout_expiry[of test6Curves 40 30
      "initialState\<lparr>queuesByCurve := (\<lambda>_. [])(''curve-1'' :=
           [\<lparr>arrivalTime = 9, demand = 5, curveId = ''curve-1'', priority_item = 1\<rparr>,
            \<lparr>arrivalTime = 10, demand = 7, curveId = ''curve-1'', priority_item = 1\<rparr>])\<rparr>"]
  by (simp add: test6Curves_def initialState_def)

subsection \<open>C6: zero capacity\<close>

text \<open>
  C6, as stated, fails for a Gaussian curve: with capacity 0 everything generated is shed,
  but what is generated is not the configured volume. For the curve with a spread of 24
  hours and volume 100000 the shed total is at most 50000.
\<close>

theorem zero_capacity_counterexample:
  "shedByCurve (finalState 0 [wideCurve] 30) ''curve-1'' \<noteq> totalDemand wideCurve"
proof -
  have "utilizationByCurve (finalState 0 [wideCurve] 30) = (\<lambda>_. 0)"
    using finalState_no_capacity[of "[wideCurve]" 30]
    by (simp add: wellFormedCurve_def wideCurve_def)
  then have "shedByCurve (finalState 0 [wideCurve] 30) ''curve-1'' \<le> 50000"
    using wideCurve_total[of 0 30] by simp
  then show ?thesis by (simp add: wideCurve_def)
qed

text \<open>
  C6, amended: with capacity 0, distinct curve ids, volumes that are not negative and a
  positive spread for every curve that is not linear, the call returns, every curve's
  served total is 0 (and so is the aggregate), and every curve's shed total is the sum of
  the demand array generated for it, exactly; for a linear curve that is its
  \<open>totalDemand\<close>. The definitions have no case for a capacity of 0.
\<close>

theorem zero_capacity:
  "distinct (map id_curve curves) \<Longrightarrow>
   \<forall>c' \<in> set curves. 0 \<le> totalDemand c' \<and> (type_curve c' \<noteq> ''linear'' \<longrightarrow> 0 < curveWidth c') \<Longrightarrow>
   c \<in> set curves \<Longrightarrow>
     runFullSimulation 0 curves queueTimeout \<noteq> None \<and>
     utilizationByCurve (finalState 0 curves queueTimeout) (id_curve c) = 0 \<and>
     totalUtilization (finalState 0 curves queueTimeout) = 0 \<and>
     shedByCurve (finalState 0 curves queueTimeout) (id_curve c) = sum_list (curveDemandArray c) \<and>
     (type_curve c = ''linear'' \<longrightarrow>
        shedByCurve (finalState 0 curves queueTimeout) (id_curve c) = totalDemand c)"
proof -
  assume dist: "distinct (map id_curve curves)"
    and wf: "\<forall>c' \<in> set curves. 0 \<le> totalDemand c' \<and> (type_curve c' \<noteq> ''linear'' \<longrightarrow> 0 < curveWidth c')"
    and cin: "c \<in> set curves"
  have "\<forall>c' \<in> set curves. wellFormedCurve c'" using wf by (simp add: wellFormedCurve_def)
  from finalState_no_capacity[OF dist this, of queueTimeout]
  have u: "utilizationByCurve (finalState 0 curves queueTimeout) = (\<lambda>_. 0)"
    and t: "totalUtilization (finalState 0 curves queueTimeout) = 0" by simp_all
  have s: "shedByCurve (finalState 0 curves queueTimeout) (id_curve c) = sum_list (curveDemandArray c)"
    using finalState_shed[OF dist cin, of 0 queueTimeout] u by simp
  from u t s show ?thesis
    by (simp add: runFullSimulation_def sum_list_curveDemandArray_linear)
qed

theorem zero_capacity_witness:
  "distinct (map id_curve [test4Curve]) \<and> 0 \<le> totalDemand test4Curve \<and>
   utilizationByCurve (finalState 0 [test4Curve] 30) ''curve-1'' = 0 \<and>
   shedByCurve (finalState 0 [test4Curve] 30) ''curve-1'' = 100000"
  using zero_capacity[of "[test4Curve]" test4Curve 30]
  by (simp add: test4Curve_def)

subsection \<open>C7: capacity and remaining demand within a minute\<close>

text \<open>
  C7: when the capacity is not negative, then in every minute \<open>n\<close>, after the expire step
  and after any number \<open>k\<close> of the curves have been processed in priority order, the
  capacity still available is not negative, what has been served in the minute is at most
  the capacity, and no queued item has a negative remaining demand; the usage recorded for
  every minute of the run is at most the capacity; and the loop over one queue keeps the
  remaining demands and the available capacity from going below 0. This holds for any
  demand arrays \<open>dem\<close>, the generated ones \<open>demandByCurve curves\<close> among them.
\<close>

theorem capacity_invariant:
  "0 \<le> machines \<Longrightarrow>
     0 \<le> availableCapacity
           (fold (processCurve n dem) (take k (sort_key priority curves))
              ((expireStep n queueTimeout curves (simulateMinutes machines curves queueTimeout dem n))
                 \<lparr>availableCapacity := machines, actualUsage := 0\<rparr>)) \<and>
     actualUsage
       (fold (processCurve n dem) (take k (sort_key priority curves))
          ((expireStep n queueTimeout curves (simulateMinutes machines curves queueTimeout dem n))
             \<lparr>availableCapacity := machines, actualUsage := 0\<rparr>)) \<le> machines \<and>
     (\<forall>cid. \<forall>item \<in> set (queuesByCurve
           (fold (processCurve n dem) (take k (sort_key priority curves))
              ((expireStep n queueTimeout curves (simulateMinutes machines curves queueTimeout dem n))
                 \<lparr>availableCapacity := machines, actualUsage := 0\<rparr>)) cid).
         0 \<le> demand item) \<and>
     (\<forall>d \<in> set (demandValues (simulateMinutes machines curves queueTimeout dem n)).
         usage_dv d \<le> machines) \<and>
     (\<forall>d \<in> set (demandValues (finalState machines curves queueTimeout)). usage_dv d \<le> machines) \<and>
     ((\<forall>item \<in> set q. 0 \<le> demand item) \<and> 0 \<le> avail \<longrightarrow>
        (\<forall>item \<in> set (fst (serveQueue q avail used curveUsage)). 0 \<le> demand item) \<and>
        0 \<le> fst (snd (serveQueue q avail used curveUsage)))"
proof -
  assume m: "0 \<le> machines"
  let ?e = "expireStep n queueTimeout curves (simulateMinutes machines curves queueTimeout dem n)"
  have "positiveQueues ?e" by (simp add: expireStep_positive simulateMinutes_positive)
  from fold_processCurve_within_capacity[OF m this, of n dem "take k (sort_key priority curves)"]
  have a: "0 \<le> availableCapacity
           (fold (processCurve n dem) (take k (sort_key priority curves))
              (?e\<lparr>availableCapacity := machines, actualUsage := 0\<rparr>))"
    and b: "actualUsage
       (fold (processCurve n dem) (take k (sort_key priority curves))
          (?e\<lparr>availableCapacity := machines, actualUsage := 0\<rparr>)) \<le> machines"
    and c: "\<forall>cid. \<forall>item \<in> set (queuesByCurve
           (fold (processCurve n dem) (take k (sort_key priority curves))
              (?e\<lparr>availableCapacity := machines, actualUsage := 0\<rparr>)) cid).
         0 \<le> demand item"
    by (auto simp: positiveQueues_def less_imp_le)
  have d: "\<forall>d \<in> set (demandValues (simulateMinutes machines curves queueTimeout dem n')).
         usage_dv d \<le> machines" for dem n'
    using simulateMinutes_usages_bounded[OF m, of curves queueTimeout dem n'] by simp
  have e: "\<forall>d \<in> set (demandValues (finalState machines curves queueTimeout)). usage_dv d \<le> machines"
    using d[of "demandByCurve curves" 1440] by (simp add: finalState_def shedRemaining_frame)
  have f: "(\<forall>item \<in> set q. 0 \<le> demand item) \<and> 0 \<le> avail \<longrightarrow>
        (\<forall>item \<in> set (fst (serveQueue q avail used curveUsage)). 0 \<le> demand item) \<and>
        0 \<le> fst (snd (serveQueue q avail used curveUsage))"
    using serveQueue_nonneg[of q avail used curveUsage]
      serveQueue_avail_nonneg[of avail q used curveUsage]
    by (cases "serveQueue q avail used curveUsage") auto
  from a b c d[of dem n] e f show ?thesis by blast
qed

theorem capacity_invariant_witness:
  "(0::real) \<le> 100 \<and>
   0 \<le> availableCapacity
         (fold (processCurve 0 (demandByCurve [p1Curve, p2Curve]))
            (take 1 (sort_key priority [p1Curve, p2Curve]))
            ((expireStep 0 30 [p1Curve, p2Curve]
                (simulateMinutes 100 [p1Curve, p2Curve] 30 (demandByCurve [p1Curve, p2Curve]) 0))
               \<lparr>availableCapacity := 100, actualUsage := 0\<rparr>)) \<and>
   actualUsage
         (fold (processCurve 0 (demandByCurve [p1Curve, p2Curve]))
            (take 1 (sort_key priority [p1Curve, p2Curve]))
            ((expireStep 0 30 [p1Curve, p2Curve]
                (simulateMinutes 100 [p1Curve, p2Curve] 30 (demandByCurve [p1Curve, p2Curve]) 0))
               \<lparr>availableCapacity := 100, actualUsage := 0\<rparr>)) \<le> 100"
  using capacity_invariant[of 100 0 "demandByCurve [p1Curve, p2Curve]" 1 "[p1Curve, p2Curve]" 30]
  by simp

subsection \<open>C8: a longer timeout sheds no more\<close>

text \<open>
  C8: for every capacity and every list of curves with distinct ids, and for all timeouts
  \<open>t1 \<le> t2\<close>, the aggregate total shed by the run with timeout \<open>t2\<close> is at most the
  aggregate total shed by the run with timeout \<open>t1\<close>, and the run with \<open>t2\<close> serves at
  least as much in total; so the rounded \<^verbatim>\<open>shedDemand\<close> the report gives does not grow
  either.
\<close>

theorem timeout_monotone:
  "distinct (map id_curve curves) \<Longrightarrow> t1 \<le> t2 \<Longrightarrow>
     totalShedDemand (finalState machines curves t2) \<le>
       totalShedDemand (finalState machines curves t1) \<and>
     totalUtilization (finalState machines curves t1) \<le>
       totalUtilization (finalState machines curves t2) \<and>
     round (totalShedDemand (finalState machines curves t2)) \<le>
       round (totalShedDemand (finalState machines curves t1))"
proof -
  assume dist: "distinct (map id_curve curves)" and t: "t1 \<le> t2"
  have s: "totalShedDemand (finalState machines curves t2) \<le>
      totalShedDemand (finalState machines curves t1)"
    by (rule totalShedDemand_antimono[OF dist t])
  have u: "totalUtilization (finalState machines curves t1) \<le>
      totalUtilization (finalState machines curves t2)"
    using totalUtilization_mono[OF dist t, of machines "demandByCurve curves" 1440]
    by (simp add: finalState_def shedRemaining_frame)
  from s have "round (totalShedDemand (finalState machines curves t2)) \<le>
      round (totalShedDemand (finalState machines curves t1))"
    by (rule round_mono)
  with s u show ?thesis by simp
qed

theorem timeout_monotone_witness:
  "distinct (map id_curve [p1Curve, p2Curve]) \<and> (30::int) \<le> 60 \<and>
   totalShedDemand (finalState 100 [p1Curve, p2Curve] 60) \<le>
     totalShedDemand (finalState 100 [p1Curve, p2Curve] 30)"
  using timeout_monotone[of "[p1Curve, p2Curve]" 30 60 100]
  by (simp add: p1Curve_def p2Curve_def)

subsection \<open>C9: malformed configurations\<close>

text \<open>
  C9 fails on this code: nothing is rejected. With the negative capacity -100, one linear
  curve of volume 100000 and timeout 30, the call returns a report, and the report says
  that -144000 was served.
\<close>

theorem negative_capacity_counterexample:
  "runFullSimulation (- 100) [test4Curve] 30 \<noteq> None \<and>
   map_option (totalUtilization_m \<circ> metrics_res) (runFullSimulation (- 100) [test4Curve] 30) =
     Some (- 144000)"
proof -
  have dist: "distinct (map id_curve [test4Curve])" by simp
  have srt: "sort_key priority [test4Curve] = test4Curve # []" by simp
  have big: "\<forall>m < 1440. - 100 \<le> curveDemandArray test4Curve ! m"
    by (simp add: curveDemandArray_linear_nth test4Curve_def)
  have wf: "\<forall>c' \<in> set []. wellFormedCurve c'" by simp
  have "totalUtilization (finalState (- 100) [test4Curve] 30) = 1440 * (- 100)"
    using finalState_first_takes_all[OF dist srt big wf, of 30] by simp
  then show ?thesis
    by (simp add: runFullSimulation_def report_def Let_def)
qed

text \<open>
  C9, amended: the engine validates nothing. For every capacity, list of curves and
  timeout, malformed or not, \<^verbatim>\<open>runFullSimulation\<close> runs all 1440 minutes and returns a
  report, computed from the input as it is: the report has the 288 chart points of the
  minutes 0, 5, ..., 1435 and the rounded totals of the final state.
\<close>

theorem no_validation:
  "\<exists>r. runFullSimulation machines curves queueTimeout = Some r \<and>
       length (data_res r) = 288 \<and>
       length (demandValues (finalState machines curves queueTimeout)) = 1440 \<and>
       totalUtilization_m (metrics_res r) =
         round (totalUtilization (finalState machines curves queueTimeout)) \<and>
       shedDemand_m (metrics_res r) =
         round (totalShedDemand (finalState machines curves queueTimeout))"
proof -
  have "length (map usage_dv (demandValues (simulateMinutes machines curves queueTimeout dem n))) = n"
    for dem n
    by (induction n) (simp_all add: initialState_def simulateMinutes_Suc minuteStep_usages)
  then have "length (demandValues (finalState machines curves queueTimeout)) = 1440"
    by (simp add: finalState_def shedRemaining_frame)
  then show ?thesis
    by (simp add: runFullSimulation_def report_def Let_def finalState_def shedRemaining_points
          simulateMinutes_points_length)
qed

subsection \<open>C10: any shape but linear is Gaussian\<close>

text \<open>
  C10: a curve whose \<open>type\<close> is any string other than \<open>linear\<close> gets the Gaussian array
  computed from its volume, \<open>peakHour\<close> and \<open>curveWidth\<close> (it is the array the run reads for
  the curve's id when the ids are distinct), and the call returns a report: no error is
  signalled for a shape the code does not know.
\<close>

theorem shape_fallback:
  "type_curve c \<noteq> ''linear'' \<Longrightarrow> c \<in> set curves \<Longrightarrow> distinct (map id_curve curves) \<Longrightarrow>
     curveDemandArray c = generateGaussianDemand (totalDemand c) (peakHour c) (curveWidth c) \<and>
     demandByCurve curves (id_curve c) =
       generateGaussianDemand (totalDemand c) (peakHour c) (curveWidth c) \<and>
     runFullSimulation machines curves queueTimeout \<noteq> None"
  by (simp add: demandByCurve_distinct curveDemandArray_def runFullSimulation_def)

theorem shape_fallback_witness:
  "type_curve triangleCurve \<noteq> ''linear'' \<and>
   demandByCurve [triangleCurve] ''curve-1'' = generateGaussianDemand 1000 9 1 \<and>
   runFullSimulation 100 [triangleCurve] 30 \<noteq> None"
  using shape_fallback[of triangleCurve "[triangleCurve]" 100 30]
  by (simp add: triangleCurve_def)

end
